theory Spec2Isabelle
  imports Complex_Main "HOL-Library.Word"
begin

section \<open>Python values and errors\<close>

text \<open>
  The exceptions of the script that the model distinguishes. \<open>struct.pack\<close> raises
  \<open>struct.error\<close> when a value does not fit its field; \<open>i / steps\<close> raises
  \<open>ZeroDivisionError\<close> for \<open>steps = 0\<close>; \<open>ImageFont.truetype\<close> raises
  \<open>OSError\<close> (of which \<open>IOError\<close> is an alias) when a font file cannot be read,
  and may fail in other ways (\<open>ImportError\<close> where Pillow was built without FreeType);
  \<open>img.save\<close> raises when an image cannot be encoded (\<open>ValueError\<close> for an image
  of width or height 0).
\<close>

datatype py_error =
  StructError | ZeroDivisionError | OSError | IOError | ImportError | ValueError

type_synonym byte = "8 word"

section \<open>The icon container encoder (\<open>create_ico\<close>)\<close>

text \<open>
  A raster image as far as the script reads it: its dimensions and its RGBA pixels.
  Pillow keeps width and height non-negative, hence \<open>nat\<close>.
\<close>

type_synonym rgba = "int \<times> int \<times> int \<times> int"

record image =
  width :: nat
  height :: nat
  pixels :: "int \<times> int \<Rightarrow> rgba"

text \<open>
  \<open>struct.pack\<close> with the \<open><\<close> prefix: little-endian, standard sizes, no padding.
  \<open>le_bytes k n\<close> are the \<open>k\<close> low bytes of \<open>n\<close>, least significant first. The formats
  \<open>B\<close>, \<open>H\<close> and \<open>I\<close> take 1, 2 and 4 bytes and raise \<open>struct.error\<close> for a value
  that does not fit. All packed values of the script are lengths, sizes and constants, so
  they are never negative.
\<close>

fun le_bytes :: "nat \<Rightarrow> nat \<Rightarrow> byte list" where
  "le_bytes 0 n = []"
| "le_bytes (Suc k) n = of_nat (n mod 256) # le_bytes k (n div 256)"

definition pack_field :: "nat \<Rightarrow> nat \<Rightarrow> py_error + byte list" where
  "pack_field k n = (if n < 256 ^ k then Inr (le_bytes k n) else Inl StructError)"

fun pack :: "(nat \<times> nat) list \<Rightarrow> py_error + byte list" where
  "pack [] = Inr []"
| "pack ((k, n) # fs) =
     (case pack_field k n of
        Inl e \<Rightarrow> Inl e
      | Inr b \<Rightarrow> (case pack fs of Inl e \<Rightarrow> Inl e | Inr bs \<Rightarrow> Inr (b @ bs)))"

definition fmt_B :: nat where "fmt_B = 1"
definition fmt_H :: nat where "fmt_H = 2"
definition fmt_I :: nat where "fmt_I = 4"

text \<open>\<open>struct.pack("<HHH", 0, 1, num_images)\<close>\<close>

definition pack_header :: "nat \<Rightarrow> py_error + byte list" where
  "pack_header num_images = pack [(fmt_H, 0), (fmt_H, 1), (fmt_H, num_images)]"

text \<open>\<open>struct.pack("<BBBBHHII", w, h, 0, 0, 1, 32, data_size, current_offset)\<close>\<close>

definition pack_entry :: "nat \<Rightarrow> nat \<Rightarrow> nat \<Rightarrow> nat \<Rightarrow> py_error + byte list" where
  "pack_entry w h data_size current_offset =
     pack [(fmt_B, w), (fmt_B, h), (fmt_B, 0), (fmt_B, 0), (fmt_H, 1), (fmt_H, 32),
           (fmt_I, data_size), (fmt_I, current_offset)]"

text \<open>
  The directory loop of \<open>create_ico\<close>: \<open>for i, img in enumerate(images)\<close>, with
  \<open>image_data_list[i]\<close> paired to \<open>img\<close>, and the two loop variables \<open>directory\<close>
  and \<open>current_offset\<close> passed along.
\<close>

fun directory_loop ::
  "(image \<times> byte list) list \<Rightarrow> byte list \<Rightarrow> nat \<Rightarrow> py_error + byte list" where
  "directory_loop [] directory current_offset = Inr directory"
| "directory_loop ((img, data) # rest) directory current_offset =
     (let w = (if width img < 256 then width img else 0);
          h = (if height img < 256 then height img else 0);
          data_size = length data
      in case pack_entry w h data_size current_offset of
           Inl e \<Rightarrow> Inl e
         | Inr entry \<Rightarrow> directory_loop rest (directory @ entry) (current_offset + data_size))"

text \<open>
  The first loop of \<open>create_ico\<close>: every image is saved as PNG into a buffer, in order.
  The encoder (\<open>img.save(buf, format="PNG")\<close>) belongs to Pillow and is the parameter
  \<open>png\<close>; it returns the bytes of the buffer or the exception it raises, which ends
  \<open>create_ico\<close>.
\<close>

fun encode_loop ::
  "(image \<Rightarrow> py_error + byte list) \<Rightarrow> image list \<Rightarrow> py_error + byte list list" where
  "encode_loop png [] = Inr []"
| "encode_loop png (img # rest) =
     (case png img of
        Inl e \<Rightarrow> Inl e
      | Inr data \<Rightarrow>
          (case encode_loop png rest of
             Inl e \<Rightarrow> Inl e
           | Inr image_data_list \<Rightarrow> Inr (data # image_data_list)))"

text \<open>
  \<open>create_ico(images, ico_path)\<close>: the header is packed first, then the images are
  encoded, then the directory is built. The result is the byte stream written to
  \<open>ico_path\<close>: header, directory, then every payload in order.
\<close>

definition create_ico ::
  "(image \<Rightarrow> py_error + byte list) \<Rightarrow> image list \<Rightarrow> py_error + byte list" where
  "create_ico png images =
     (let num_images = length images
      in case pack_header num_images of
           Inl e \<Rightarrow> Inl e
         | Inr header \<Rightarrow>
             (case encode_loop png images of
                Inl e \<Rightarrow> Inl e
              | Inr image_data_list \<Rightarrow>
                  (let dir_offset = 6 + num_images * 16
                   in case directory_loop (zip images image_data_list) [] dir_offset of
                        Inl e \<Rightarrow> Inl e
                      | Inr directory \<Rightarrow> Inr (header @ directory @ concat image_data_list))))"


definition u8_at :: "byte list \<Rightarrow> nat \<Rightarrow> nat" where
  "u8_at bs k = unat (bs ! k)"



definition entry_at :: "byte list \<Rightarrow> nat \<Rightarrow> byte list" where
  "entry_at bs i = take 16 (drop (6 + 16 * i) bs)"




text \<open>
  A stand-in encoder for concrete runs: the eight bytes of the PNG signature, and
  \<open>ValueError\<close> for an image without pixels.
\<close>

definition png_signature :: "image \<Rightarrow> py_error + byte list" where
  "png_signature img =
     (if width img = 0 \<or> height img = 0 then Inl ValueError
      else Inr [137, 80, 78, 71, 13, 10, 26, 10])"

definition blank :: "nat \<Rightarrow> nat \<Rightarrow> image" where
  "blank w h = \<lparr>width = w, height = h, pixels = (\<lambda>p. (0, 0, 0, 255))\<rparr>"

section \<open>Double-precision arithmetic\<close>

text \<open>
  Python's \<open>float\<close> is an IEEE 754 binary64 number. A finite double is modelled by the
  real number it denotes, and every arithmetic operation by the exact operation followed by
  \<open>fl\<close>, rounding to the nearest double with ties to the even significand. A double
  with binary exponent \<open>e\<close> is a multiple of \<open>2 ^ (e - 52)\<close>; below \<open>2 ^ (-1022)\<close> the
  spacing stays \<open>2 ^ (-1074)\<close> (subnormal numbers). Infinities and NaN are not modelled:
  the model is that of the script for values below \<open>2 ^ 1024\<close> in magnitude, which
  all values of the script are.
\<close>

fun log2n :: "nat \<Rightarrow> nat" where
  "log2n n = (if n < 2 then 0 else Suc (log2n (n div 2)))"

declare log2n.simps [simp del]

text \<open>The binary exponent of a positive number: \<open>2 ^ expo x \<le> x < 2 ^ (expo x + 1)\<close>.\<close>

definition expo :: "real \<Rightarrow> int" where
  "expo x = (if 1 \<le> x then int (log2n (nat \<lfloor>x\<rfloor>))
             else - int (log2n (nat (\<lceil>1 / x\<rceil> - 1))) - 1)"

definition round_even :: "real \<Rightarrow> int" where
  "round_even y =
     (let n = \<lfloor>y\<rfloor>; d = y - of_int n
      in if d < 1 / 2 then n else if 1 / 2 < d then n + 1 else if even n then n else n + 1)"

definition fl :: "real \<Rightarrow> real" where
  "fl x =
     (if x = 0 then 0
      else let e = max (expo \<bar>x\<bar>) (- 1022);
               q = 2 powi (e - 52)
           in of_int (round_even (x / q)) * q)"

text \<open>
  A dyadic number with a significand below \<open>2 ^ 53\<close> in magnitude and at most 1074
  binary places: such a number is a double.
\<close>

definition dyadic :: "real \<Rightarrow> bool" where
  "dyadic d = (\<exists>m j. d = of_int m / 2 ^ j \<and> \<bar>m\<bar> < 2 ^ 53 \<and> j \<le> 1074)"

text \<open>
  The arithmetic of doubles, the conversion \<open>float(k)\<close> of an integer, and \<open>int(x)\<close>,
  which truncates towards zero.
\<close>

definition fadd :: "real \<Rightarrow> real \<Rightarrow> real" where "fadd x y = fl (x + y)"
definition fsub :: "real \<Rightarrow> real \<Rightarrow> real" where "fsub x y = fl (x - y)"
definition fmul :: "real \<Rightarrow> real \<Rightarrow> real" where "fmul x y = fl (x * y)"
definition fdiv :: "real \<Rightarrow> real \<Rightarrow> real" where "fdiv x y = fl (x / y)"

definition i2f :: "int \<Rightarrow> real" where "i2f k = fl (of_int k)"

definition py_int :: "real \<Rightarrow> int" where
  "py_int x = (if 0 \<le> x then \<lfloor>x\<rfloor> else \<lceil>x\<rceil>)"

text \<open>
  \<open>math.radians(x)\<close> is \<open>x * degToRad\<close> in CPython, where \<open>degToRad\<close> is the double
  \<open>pi / 180.0\<close> and \<open>pi\<close> the double nearest to \<open>\<pi>\<close>, \<open>884279719003555 / 2 ^ 48\<close>.
  \<open>math.cos\<close> and \<open>math.sin\<close> come from the platform's C library and are parameters
  of the model.
\<close>

definition double_pi :: real where
  "double_pi = 884279719003555 / 281474976710656"

definition radians :: "real \<Rightarrow> real" where
  "radians x = fmul x (fdiv double_pi 180)"

record libm =
  cos_d :: "real \<Rightarrow> real"
  sin_d :: "real \<Rightarrow> real"

text \<open>
  Closed forms of what the encoder computes, used to state and prove its properties:
  the byte a dimension is stored as, the 16 bytes of one directory entry, the whole
  directory, the offset of payload \<open>i\<close> (header, directory and the payloads before it),
  and the byte stream of a successful run.
\<close>

definition fields_fit :: "(nat \<times> nat) list \<Rightarrow> bool" where
  "fields_fit fs = list_all (\<lambda>(k, n). n < 256 ^ k) fs"

definition dir_byte :: "nat \<Rightarrow> nat" where
  "dir_byte d = (if d < 256 then d else 0)"

definition entry_bytes :: "nat \<Rightarrow> nat \<Rightarrow> nat \<Rightarrow> nat \<Rightarrow> byte list" where
  "entry_bytes w h data_size off =
     [of_nat w, of_nat h, 0, 0, 1, 0, 32, 0] @ le_bytes 4 data_size @ le_bytes 4 off"

fun dir_fits :: "(image \<times> byte list) list \<Rightarrow> nat \<Rightarrow> bool" where
  "dir_fits [] off = True"
| "dir_fits ((img, d) # rest) off =
     (length d < 4294967296 \<and> off < 4294967296 \<and> dir_fits rest (off + length d))"

fun dir_bytes :: "(image \<times> byte list) list \<Rightarrow> nat \<Rightarrow> byte list" where
  "dir_bytes [] off = []"
| "dir_bytes ((img, d) # rest) off =
     entry_bytes (dir_byte (width img)) (dir_byte (height img)) (length d) off
       @ dir_bytes rest (off + length d)"

definition payload_start :: "byte list list \<Rightarrow> nat \<Rightarrow> nat" where
  "payload_start datas i = 6 + 16 * length datas + sum_list (map length (take i datas))"

definition sizes_before :: "(image \<times> byte list) list \<Rightarrow> nat \<Rightarrow> nat" where
  "sizes_before ps i = sum_list (map (length \<circ> snd) (take i ps))"

definition header_bytes :: "nat \<Rightarrow> byte list" where
  "header_bytes n = [0, 0, 1, 0] @ le_bytes 2 n"

definition ico_bytes :: "image list \<Rightarrow> byte list list \<Rightarrow> byte list" where
  "ico_bytes images datas =
     header_bytes (length images)
       @ dir_bytes (zip images datas) (6 + 16 * length images)
       @ concat datas"

section \<open>The canvas composer\<close>

subsection \<open>Colours\<close>

text \<open>
  Python's \<open>int\<close> is \<open>int\<close>; a colour is a tuple of integers. Where an integer meets a
  double in an operation Python converts it with \<open>float\<close>, here \<open>i2f\<close>; the quotient
  \<open>a / b\<close> of two integers is the correctly rounded double, \<open>fdiv (of_int a) (of_int b)\<close>.
  A decimal literal such as \<open>0.6\<close> is the double nearest to it, \<open>fl 0.6\<close>.
\<close>

definition SIZE :: int where
  "SIZE = 1024"

type_synonym color = "int list"

text \<open>\<open>tuple(int(a + (b - a) * t) for a, b in zip(c1, c2))\<close>\<close>

definition lerp_color :: "color \<Rightarrow> color \<Rightarrow> real \<Rightarrow> color" where
  "lerp_color c1 c2 t = map (\<lambda>(a, b). py_int (fadd (i2f a) (fmul (i2f (b - a)) t))) (zip c1 c2)"

text \<open>
  The specification's reading of the same operation, for comparison: the exact value of
  each channel, rounded to the nearest integer.
\<close>

definition lerp_color_rounded :: "color \<Rightarrow> color \<Rightarrow> real \<Rightarrow> color" where
  "lerp_color_rounded c1 c2 t = map (\<lambda>(a, b). round (of_int a + of_int (b - a) * t)) (zip c1 c2)"

subsection \<open>Drawing calls\<close>

text \<open>
  The script draws through Pillow's \<open>ImageDraw\<close>. A call is recorded with its arguments:
  \<open>draw.ellipse([x0, y0, x1, y1], fill)\<close>, \<open>draw.line([(x1, y1), (x2, y2)], fill, width)\<close> and
  \<open>draw.text((x, y), text, fill, font)\<close>. The functions of the script return the calls
  they issue, in order; \<open>render\<close> below applies them to the image.
\<close>

datatype 'f draw_cmd =
    Ellipse "real \<times> real \<times> real \<times> real" color
  | Line "real \<times> real" "real \<times> real" color int
  | Text "real \<times> real" string color 'f

text \<open>
  The body of the first loop of \<open>draw_thick_arc\<close>: the point of the rotated ellipse at
  fraction \<open>t\<close> of the angular span, with \<open>cos_r\<close> and \<open>sin_r\<close> computed before the loop.
  Python evaluates \<open>cx + ex * cos_r - ey * sin_r\<close> from left to right.
\<close>

definition arc_point ::
  "libm \<Rightarrow> real \<Rightarrow> real \<Rightarrow> real \<Rightarrow> real \<Rightarrow> real \<Rightarrow> real \<Rightarrow> real \<Rightarrow> real \<Rightarrow> real
     \<Rightarrow> real \<times> real \<times> real" where
  "arc_point M cx cy rx ry angle_start angle_end cos_r sin_r t =
     (let angle = radians (fadd angle_start (fmul (fsub angle_end angle_start) t));
          ex = fmul rx (cos_d M angle);
          ey = fmul ry (sin_d M angle);
          px = fsub (fadd cx (fmul ex cos_r)) (fmul ey sin_r);
          py = fadd (fadd cy (fmul ex sin_r)) (fmul ey cos_r)
      in (px, py, t))"

text \<open>
  \<open>draw_thick_arc\<close>. \<open>range(steps + 1)\<close> is \<open>[0..steps]\<close>, empty for a negative \<open>steps\<close>;
  \<open>i / steps\<close> raises \<open>ZeroDivisionError\<close> for \<open>steps = 0\<close> at the first iteration.
\<close>

definition draw_thick_arc ::
  "libm \<Rightarrow> real \<Rightarrow> real \<Rightarrow> real \<Rightarrow> real \<Rightarrow> real \<Rightarrow> real \<Rightarrow> real \<Rightarrow> int \<Rightarrow> color \<Rightarrow> color
     \<Rightarrow> int \<Rightarrow> py_error + 'f draw_cmd list" where
  "draw_thick_arc M cx cy rx ry angle_start angle_end rotation wd color_start color_end steps =
     (if steps = 0 then Inl ZeroDivisionError
      else
        let cos_r = cos_d M rotation;
            sin_r = sin_d M rotation;
            points = map (\<lambda>i. arc_point M cx cy rx ry angle_start angle_end cos_r sin_r
                               (fdiv (of_int i) (of_int steps))) [0..steps]
        in Inr (map (\<lambda>i.
                  let (x1, y1, t1) = points ! i;
                      (x2, y2, t2) = points ! (i + 1);
                      t_mid = fdiv (fadd t1 t2) 2;
                      color = lerp_color color_start color_end t_mid
                  in Line (x1, y1) (x2, y2) color wd) [0..<length points - 1]))"

text \<open>\<open>draw_orbital\<close> calls \<open>draw_thick_arc\<close> without \<open>steps\<close>, which then is its default, 200.\<close>

definition default_steps :: int where
  "default_steps = 200"

definition draw_orbital ::
  "libm \<Rightarrow> real \<Rightarrow> real \<Rightarrow> real \<Rightarrow> real \<Rightarrow> real \<Rightarrow> color \<Rightarrow> color \<Rightarrow> int \<Rightarrow> real \<Rightarrow> real
     \<Rightarrow> py_error + 'f draw_cmd list" where
  "draw_orbital M cx cy rx ry rotation color_start color_end wd arc_start arc_end =
     draw_thick_arc M cx cy rx ry arc_start arc_end rotation wd color_start color_end default_steps"

text \<open>
  \<open>draw_sphere\<close>: \<open>range(a, b, -1)\<close> is \<open>rev [b + 1..a]\<close>. The glow colour is
  the base colour with \<open>alpha\<close> appended as its fourth channel. The boxes of the glow and
  of the body have integer corners; those of the highlight are doubles.
\<close>

definition int_box :: "int \<Rightarrow> int \<Rightarrow> int \<Rightarrow> real \<times> real \<times> real \<times> real" where
  "int_box cx cy r = (of_int (cx - r), of_int (cy - r), of_int (cx + r), of_int (cy + r))"

definition draw_sphere :: "int \<Rightarrow> int \<Rightarrow> int \<Rightarrow> color \<Rightarrow> color \<Rightarrow> 'f draw_cmd list" where
  "draw_sphere cx cy radius base_color highlight_color =
     (let glow = map (\<lambda>r.
                   let alpha = py_int (fmul 60 (fsub 1 (fdiv (of_int (r - radius)) 12)));
                       glow_color = base_color @ [alpha]
                   in Ellipse (int_box cx cy r) glow_color)
                 (rev [radius + 1..radius + 12]);
          body = map (\<lambda>r.
                   let t = fsub 1 (fdiv (of_int r) (of_int radius));
                       color = lerp_color base_color highlight_color (fmul t (fl 0.6))
                   in Ellipse (int_box cx cy r) color)
                 (rev [1..radius]);
          hx = fsub (i2f cx) (fmul (i2f radius) (fl 0.3));
          hy = fsub (i2f cy) (fmul (i2f radius) (fl 0.3));
          hr = fmul (i2f radius) (fl 0.35);
          highlight = map (\<lambda>r2.
                   let alpha = py_int (fmul 200 (fsub 1 (fdiv (i2f r2) hr)))
                   in Ellipse (fsub hx (i2f r2), fsub hy (i2f r2), fadd hx (i2f r2), fadd hy (i2f r2))
                        [255, 255, 255, alpha])
                 (rev [1..py_int hr])
      in glow @ body @ highlight)"

definition draw_sparkle :: "int \<Rightarrow> int \<Rightarrow> int \<Rightarrow> color \<Rightarrow> 'f draw_cmd list" where
  "draw_sparkle x y sz color =
     (let s = sz;
          ds = fmul (i2f s) (fl 0.6)
      in [Line (of_int x, of_int (y - s)) (of_int x, of_int (y + s)) color 1,
          Line (of_int (x - s), of_int y) (of_int (x + s), of_int y) color 1,
          Line (fsub (i2f x) ds, fsub (i2f y) ds) (fadd (i2f x) ds, fadd (i2f y) ds) color 1,
          Line (fadd (i2f x) ds, fsub (i2f y) ds) (fsub (i2f x) ds, fadd (i2f y) ds) color 1])"

subsection \<open>Pillow and the random module\<close>

text \<open>
  Pillow is not part of the repository, so what it does is a parameter of the model:
  the font loaders, the text metrics, and the rasteriser, that is the set of pixels an
  ellipse or a line covers and what a text call does to a pixel. One fact about
  \<open>ImageDraw\<close> is built into \<open>paint\<close>: a draw object made by \<open>ImageDraw.Draw(img)\<close> has the
  mode of its image, and then a shape stores its ink in every pixel it covers, alpha
  included (Pillow blends only for an RGBA draw object on an RGB image). An RGB fill
  on an RGBA image gets alpha 255.
\<close>

record 'f pillow =
  truetype :: "string \<Rightarrow> int \<Rightarrow> py_error + 'f"
  load_default :: "'f"
  textbbox :: "'f \<Rightarrow> string \<Rightarrow> real \<times> real \<times> real \<times> real"
  ellipse_px :: "real \<times> real \<times> real \<times> real \<Rightarrow> int \<times> int \<Rightarrow> bool"
  line_px :: "real \<times> real \<Rightarrow> real \<times> real \<Rightarrow> int \<Rightarrow> int \<times> int \<Rightarrow> bool"
  text_paint :: "'f \<Rightarrow> real \<times> real \<Rightarrow> string \<Rightarrow> color \<Rightarrow> int \<times> int \<Rightarrow> rgba \<Rightarrow> rgba"

fun ink :: "color \<Rightarrow> rgba" where
  "ink [r, g, b] = (r, g, b, 255)"
| "ink [r, g, b, a] = (r, g, b, a)"
| "ink c = (0, 0, 0, 0)"

text \<open>
  Every fill of the script has three or four channels; the last equation of \<open>ink\<close>
  stands for the error Pillow raises on any other colour and is never reached.
\<close>

definition alpha_of :: "rgba \<Rightarrow> int" where
  "alpha_of c = (case c of (r, g, b, a) \<Rightarrow> a)"

definition new_image :: "int \<Rightarrow> int \<Rightarrow> rgba \<Rightarrow> image" where
  "new_image w h c = \<lparr>width = nat w, height = nat h, pixels = (\<lambda>p. c)\<rparr>"

fun paint :: "'f pillow \<Rightarrow> 'f draw_cmd \<Rightarrow> image \<Rightarrow> image" where
  "paint P (Ellipse box fill) img =
     img\<lparr>pixels := (\<lambda>p. if ellipse_px P box p then ink fill else pixels img p)\<rparr>"
| "paint P (Line a b fill wd) img =
     img\<lparr>pixels := (\<lambda>p. if line_px P a b wd p then ink fill else pixels img p)\<rparr>"
| "paint P (Text pos s fill font) img =
     img\<lparr>pixels := (\<lambda>p. text_paint P font pos s fill p (pixels img p))\<rparr>"

definition render :: "'f pillow \<Rightarrow> 'f draw_cmd list \<Rightarrow> image \<Rightarrow> image" where
  "render P cmds img = fold (paint P) cmds img"

text \<open>
  The \<open>random\<close> module keeps one generator state. \<open>random.seed(n)\<close> replaces it by a
  state that depends on \<open>n\<close> alone, \<open>random.randint(a, b)\<close> returns a number and the next
  state. The generator itself is a parameter.
\<close>

record 'g random =
  seed :: "int \<Rightarrow> 'g"
  randint :: "'g \<Rightarrow> int \<Rightarrow> int \<Rightarrow> int \<times> 'g"

subsection \<open>\<open>create_nebula_icon\<close>\<close>

text \<open>
  The font fallback chain: \<open>except (OSError, IOError)\<close> catches these two and lets any
  other exception propagate. \<open>ImageFont.load_default()\<close> is taken as always available.
\<close>

definition caught :: "py_error \<Rightarrow> bool" where
  "caught e = (e = OSError \<or> e = IOError)"

definition load_font :: "'f pillow \<Rightarrow> int \<Rightarrow> py_error + 'f" where
  "load_font P bracket_size =
     (case truetype P ''consola.ttf'' bracket_size of
        Inr font \<Rightarrow> Inr font
      | Inl e1 \<Rightarrow>
          if \<not> caught e1 then Inl e1
          else (case truetype P ''cour.ttf'' bracket_size of
                  Inr font \<Rightarrow> Inr font
                | Inl e2 \<Rightarrow>
                    if \<not> caught e2 then Inl e2
                    else (case truetype P ''C:/Windows/Fonts/consola.ttf'' bracket_size of
                            Inr font \<Rightarrow> Inr font
                          | Inl e3 \<Rightarrow>
                              if \<not> caught e3 then Inl e3 else Inr (load_default P))))"

definition BLUE :: color where "BLUE = [60, 120, 255]"
definition PURPLE :: color where "PURPLE = [160, 60, 220]"
definition PINK :: color where "PINK = [230, 60, 160]"
definition ORANGE :: color where "ORANGE = [255, 160, 30]"
definition RED_ORANGE :: color where "RED_ORANGE = [240, 80, 40]"

definition orbitals :: "(int \<times> color \<times> color) list" where
  "orbitals = [(-30, BLUE, PURPLE), (30, PURPLE, PINK), (90, ORANGE, RED_ORANGE)]"

definition electrons :: "(nat \<times> int \<times> int \<times> color \<times> color) list" where
  "electrons = [(0, 220, 22, [80, 130, 255], [180, 200, 255]),
                (2, 40, 22, [255, 160, 30], [255, 220, 140])]"

definition sparkle_positions :: "(int \<times> int \<times> int) list" where
  "sparkle_positions =
     [(180, 200, 6), (820, 180, 5), (850, 750, 7),
      (200, 700, 4), (750, 300, 5), (300, 150, 4),
      (700, 800, 6), (150, 450, 3), (880, 500, 4),
      (400, 850, 3), (600, 130, 4), (900, 350, 3)]"

text \<open>The background loop: \<open>for r in range(SIZE // 2, 0, -1)\<close>.\<close>

definition background :: "'f draw_cmd list" where
  "background =
     (let cx = SIZE div 2; cy = SIZE div 2
      in map (\<lambda>r.
           let t = fdiv (of_int r) (of_int (SIZE div 2));
               val = py_int (fadd 8 (fmul 12 t));
               color = [val, val, py_int (fmul (i2f val) (fl 1.2)), 255]
           in Ellipse (int_box cx cy r) color)
         (rev [1..SIZE div 2]))"

text \<open>
  Running a list of fallible drawing steps in order: the first exception ends the run.
\<close>

fun collect :: "(py_error + 'a list) list \<Rightarrow> py_error + 'a list" where
  "collect [] = Inr []"
| "collect (r # rs) =
     (case r of
        Inl e \<Rightarrow> Inl e
      | Inr xs \<Rightarrow> (case collect rs of Inl e \<Rightarrow> Inl e | Inr ys \<Rightarrow> Inr (xs @ ys)))"

text \<open>The two loops over \<open>orbitals\<close>: back halves (180 to 360) and front halves (0 to 180).\<close>

definition orbital_halves :: "libm \<Rightarrow> int \<Rightarrow> int \<Rightarrow> py_error + 'f draw_cmd list" where
  "orbital_halves M arc_start arc_end =
     (let cx = SIZE div 2; cy = SIZE div 2; rx = 340; ry = 130
      in collect (map (\<lambda>(rot_deg, c_start, c_end).
           let rot = radians (i2f rot_deg)
           in draw_orbital M (i2f cx) (i2f cy) (i2f rx) (i2f ry) rot c_start c_end 16
                (i2f arc_start) (i2f arc_end))
         orbitals))"

text \<open>
  The glyph: shadow, then foreground, centred by the text's bounding box. \<open>tw // 2\<close> is
  the floor of the exact half.
\<close>

definition glyph :: "'f pillow \<Rightarrow> 'f \<Rightarrow> 'f draw_cmd list" where
  "glyph P font =
     (let cx = SIZE div 2; cy = SIZE div 2;
          text = ''</>'';
          (b0, b1, b2, b3) = textbbox P font text;
          tw = fsub b2 b0;
          th = fsub b3 b1;
          tx = fsub (i2f cx) (of_int \<lfloor>tw / 2\<rfloor>);
          ty = fsub (fsub (i2f cy) (of_int \<lfloor>th / 2\<rfloor>)) 20
      in [Text (fadd tx 3, fadd ty 3) text [0, 0, 0, 180] font,
          Text (tx, ty) text [230, 230, 240, 255] font])"

text \<open>
  The loop over \<open>electrons\<close>: the position of an electron as the loop body computes it,
  and the spheres the loop draws at the positions, truncated by \<open>int\<close>.
\<close>

definition electron_position ::
  "libm \<Rightarrow> real \<Rightarrow> real \<Rightarrow> real \<Rightarrow> real \<Rightarrow> int \<Rightarrow> int \<Rightarrow> real \<times> real" where
  "electron_position M cx cy rx ry rot_deg angle_deg =
     (let rot = radians (i2f rot_deg);
          angle = radians (i2f angle_deg);
          ex = fmul rx (cos_d M angle);
          ey = fmul ry (sin_d M angle);
          px = fsub (fadd cx (fmul ex (cos_d M rot))) (fmul ey (sin_d M rot));
          py = fadd (fadd cy (fmul ex (sin_d M rot))) (fmul ey (cos_d M rot))
      in (px, py))"

definition spheres :: "libm \<Rightarrow> 'f draw_cmd list" where
  "spheres M =
     (let cx = SIZE div 2; cy = SIZE div 2; rx = 340; ry = 130
      in concat (map (\<lambda>(orb_idx, angle_deg, rad, base_col, hi_col).
           let (rot_deg, c_start, c_end) = orbitals ! orb_idx;
               (px, py) = electron_position M (i2f cx) (i2f cy) (i2f rx) (i2f ry) rot_deg angle_deg
           in draw_sphere (py_int px) (py_int py) rad base_col hi_col)
         electrons))"

text \<open>
  The sparkle loop: one \<open>random.randint(180, 255)\<close> per sparkle, in order, the generator
  state passed along. It returns the colours drawn, the drawing calls and the final state.
\<close>

fun sparkle_loop ::
  "'g random \<Rightarrow> 'g \<Rightarrow> (int \<times> int \<times> int) list \<Rightarrow> color list \<times> 'f draw_cmd list \<times> 'g" where
  "sparkle_loop R g [] = ([], [], g)"
| "sparkle_loop R g ((sx, sy, ss) # rest) =
     (let (b, g') = randint R g 180 255;
          sparkle_color = [255, 255, b];
          cmds = draw_sparkle sx sy ss sparkle_color;
          (colors, more, g'') = sparkle_loop R g' rest
      in (sparkle_color # colors, cmds @ more, g''))"

text \<open>
  The sparkle step: \<open>random.seed(42)\<close>, then the loop. \<open>g0\<close> is the state of the generator
  when the step begins, whatever ran before.
\<close>

definition sparkle_step :: "'g random \<Rightarrow> 'g \<Rightarrow> color list \<times> 'f draw_cmd list \<times> 'g" where
  "sparkle_step R g0 = (let g = seed R 42 in sparkle_loop R g sparkle_positions)"

definition sparkle_colors :: "'g random \<Rightarrow> 'g \<Rightarrow> color list" where
  "sparkle_colors R g0 = fst (sparkle_step R g0 :: color list \<times> unit draw_cmd list \<times> 'g)"

text \<open>
  \<open>create_nebula_icon\<close>: the image, or the exception that ended the run. The drawing
  calls are applied in the order the script issues them.
\<close>

definition create_nebula_icon ::
  "libm \<Rightarrow> 'f pillow \<Rightarrow> 'g random \<Rightarrow> 'g \<Rightarrow> py_error + image" where
  "create_nebula_icon M P R g0 =
     (let img = new_image SIZE SIZE (0, 0, 0, 255)
      in case orbital_halves M 180 360 of
           Inl e \<Rightarrow> Inl e
         | Inr back \<Rightarrow>
            (case load_font P 240 of
               Inl e \<Rightarrow> Inl e
             | Inr font \<Rightarrow>
                (case orbital_halves M 0 180 of
                   Inl e \<Rightarrow> Inl e
                 | Inr front \<Rightarrow>
                    (let (colors, sparkles, g) = sparkle_step R g0
                     in Inr (render P
                               (background @ back @ glyph P font @ front @ spheres M @ sparkles)
                               img)))))"

subsection \<open>Definitions for stating the composer's properties\<close>

text \<open>The first \<open>n\<close> numbers \<open>random.randint(180, 255)\<close> returns from state \<open>g\<close> on.\<close>

fun draws :: "'g random \<Rightarrow> 'g \<Rightarrow> nat \<Rightarrow> int list" where
  "draws R g 0 = []"
| "draws R g (Suc n) = (let (b, g') = randint R g 180 255 in b # draws R g' n)"

text \<open>
  The specification's parametrisation of a rotated ellipse,
  \<open>(cx + rx cos a cos r - ry sin a sin r, cy + rx cos a sin r + ry sin a cos r)\<close>: the
  point at angle \<open>a\<close> of the ellipse with radii \<open>rx\<close>, \<open>ry\<close> and centre \<open>(cx, cy)\<close>,
  rotated by \<open>r\<close> (both angles in radians), evaluated from left to right in double
  arithmetic with the machine's \<open>cos\<close> and \<open>sin\<close>.
\<close>

definition orbit_point :: "libm \<Rightarrow> real \<Rightarrow> real \<Rightarrow> real \<Rightarrow> real \<Rightarrow> real \<Rightarrow> real \<Rightarrow> real \<times> real" where
  "orbit_point M cx cy rx ry a r =
     (fsub (fadd cx (fmul (fmul rx (cos_d M a)) (cos_d M r))) (fmul (fmul ry (sin_d M a)) (sin_d M r)),
      fadd (fadd cy (fmul (fmul rx (cos_d M a)) (sin_d M r))) (fmul (fmul ry (sin_d M a)) (cos_d M r)))"

text \<open>A drawing call that leaves pixel \<open>p\<close> as it is, whatever the image.\<close>

fun untouched :: "'f pillow \<Rightarrow> (int \<times> int) \<Rightarrow> 'f draw_cmd \<Rightarrow> bool" where
  "untouched P p (Ellipse box fill) = (\<not> ellipse_px P box p)"
| "untouched P p (Line a b fill wd) = (\<not> line_px P a b wd p)"
| "untouched P p (Text pos s fill font) = False"

text \<open>
  Stand-ins for concrete runs. \<open>plain_pillow\<close> is a machine on which only \<open>cour.ttf\<close>
  loads; it fills the exact ellipse inscribed in the bounding box, the bounding box of a
  stroke for a line, and the bounding box of the glyph for a text. \<open>lcg\<close> is a linear
  congruential generator. \<open>coarse_libm\<close> knows two angles only: below one radian it
  answers with \<open>cos\<close> and \<open>sin\<close> of 40 degrees to four decimals (in 13 and 12 binary
  places), above with those of 90 degrees.
\<close>

definition ideal_ellipse :: "real \<times> real \<times> real \<times> real \<Rightarrow> int \<times> int \<Rightarrow> bool" where
  "ideal_ellipse box p =
     (case box of (x0, y0, x1, y1) \<Rightarrow> case p of (x, y) \<Rightarrow>
        x0 < x1 \<and> y0 < y1 \<and>
        (2 * of_int x - x0 - x1)\<^sup>2 * (y1 - y0)\<^sup>2 + (2 * of_int y - y0 - y1)\<^sup>2 * (x1 - x0)\<^sup>2
          \<le> (x1 - x0)\<^sup>2 * (y1 - y0)\<^sup>2)"

definition stroke_box :: "real \<times> real \<Rightarrow> real \<times> real \<Rightarrow> int \<Rightarrow> int \<times> int \<Rightarrow> bool" where
  "stroke_box a b wd p =
     (case a of (x1, y1) \<Rightarrow> case b of (x2, y2) \<Rightarrow> case p of (x, y) \<Rightarrow>
        min x1 x2 - of_int wd / 2 \<le> of_int x \<and> of_int x \<le> max x1 x2 + of_int wd / 2 \<and>
        min y1 y2 - of_int wd / 2 \<le> of_int y \<and> of_int y \<le> max y1 y2 + of_int wd / 2)"

definition glyph_box :: "string \<Rightarrow> real \<times> real \<Rightarrow> string \<Rightarrow> color \<Rightarrow> int \<times> int \<Rightarrow> rgba \<Rightarrow> rgba" where
  "glyph_box font pos s fill p c =
     (case pos of (tx, ty) \<Rightarrow> case p of (x, y) \<Rightarrow>
        if tx \<le> of_int x \<and> of_int x \<le> tx + 396 \<and> ty \<le> of_int y \<and> of_int y \<le> ty + 240
        then ink fill else c)"

definition plain_pillow :: "string pillow" where
  "plain_pillow =
     \<lparr>truetype = (\<lambda>name sz. if name = ''cour.ttf'' then Inr name else Inl OSError),
      load_default = ''default'',
      textbbox = (\<lambda>font s. (0, 0, 396, 240)),
      ellipse_px = ideal_ellipse,
      line_px = stroke_box,
      text_paint = glyph_box\<rparr>"



definition lcg :: "nat random" where
  "lcg = \<lparr>seed = (\<lambda>n. nat \<bar>n\<bar>),
          randint = (\<lambda>g a b. (a + int (g mod nat (b - a + 1)),
                              (1103515245 * g + 12345) mod 2147483648))\<rparr>"

definition coarse_libm :: libm where
  "coarse_libm =
     \<lparr>cos_d = (\<lambda>x. if x < 1 then 6275 / 8192 else 0),
      sin_d = (\<lambda>x. if x < 1 then 2633 / 4096 else 1)\<rparr>"

section \<open>Properties of double rounding\<close>

text \<open>
  \<open>fl\<close> never crosses a double: a bound that is itself a double (here: a dyadic number
  with a significand below \<open>2 ^ 53\<close> and an exponent that is not positive) is kept, and
  such a number is rounded to itself.
\<close>

lemma log2n_spec: "0 < n \<Longrightarrow> 2 ^ log2n n \<le> n \<and> n < 2 * 2 ^ log2n n"
proof (induction n rule: log2n.induct)
  case (1 n)
  show ?case
  proof (cases "n < 2")
    case True
    with 1(2) have "n = 1" by simp
    then show ?thesis by (simp add: log2n.simps)
  next
    case False
    then have pos: "0 < n div 2" by simp
    from 1(1)[OF False pos] have ih: "2 ^ log2n (n div 2) \<le> n div 2"
      "n div 2 < 2 * 2 ^ log2n (n div 2)" by simp_all
    have eq: "log2n n = Suc (log2n (n div 2))" using False by (simp add: log2n.simps)
    have "2 * (n div 2) \<le> n" by simp
    moreover have "n < 2 * (n div 2) + 2" by presburger
    ultimately show ?thesis using ih unfolding eq by simp
  qed
qed

lemma expo_le:
  assumes "0 < x"
  shows "2 powi (expo x) \<le> x"
proof (cases "1 \<le> x")
  case True
  let ?n = "nat \<lfloor>x\<rfloor>"
  have n: "0 < ?n" using True by simp
  have "real (2 ^ log2n ?n) \<le> real ?n" using log2n_spec[OF n] by (simp only: of_nat_le_iff)
  also have "real ?n \<le> x" using True by simp
  finally show ?thesis using True by (simp add: expo_def)
next
  case False
  let ?m = "nat (\<lceil>1 / x\<rceil> - 1)"
  have inv: "1 < 1 / x" using False assms by simp
  then have c: "2 \<le> \<lceil>1 / x\<rceil>" by linarith
  then have m: "0 < ?m" by simp
  have "int ?m < int (2 * 2 ^ log2n ?m)" using log2n_spec[OF m] by (simp only: of_nat_less_iff)
  moreover have "int ?m = \<lceil>1 / x\<rceil> - 1"
  proof -
    have "0 \<le> \<lceil>1 / x\<rceil> - 1" using c by linarith
    then show ?thesis by (simp only: int_nat_eq if_True)
  qed
  ultimately have "\<lceil>1 / x\<rceil> \<le> 2 * 2 ^ log2n ?m" by simp
  then have "1 / x \<le> of_int (2 * 2 ^ log2n ?m)" by (simp only: ceiling_le_iff)
  then have "1 / x \<le> 2 ^ Suc (log2n ?m)" by simp
  then have "1 / 2 ^ Suc (log2n ?m) \<le> x"
    using assms by (simp add: field_simps)
  moreover have "expo x = - int (Suc (log2n ?m))" using False by (simp add: expo_def)
  ultimately show ?thesis
    by (simp only: power_int_minus power_int_of_nat inverse_eq_divide)
qed

lemma round_even_ge: "of_int k \<le> y \<Longrightarrow> k \<le> round_even y"
proof -
  assume "of_int k \<le> y"
  then have "k \<le> \<lfloor>y\<rfloor>" by (simp add: le_floor_iff)
  moreover have "\<lfloor>y\<rfloor> \<le> round_even y" by (simp add: round_even_def Let_def)
  ultimately show ?thesis by simp
qed

lemma round_even_le: "y \<le> of_int k \<Longrightarrow> round_even y \<le> k"
proof -
  assume le: "y \<le> of_int k"
  show ?thesis
  proof (cases "y = of_int \<lfloor>y\<rfloor>")
    case True
    then have "round_even y = \<lfloor>y\<rfloor>" by (simp add: round_even_def Let_def)
    moreover have "\<lfloor>y\<rfloor> \<le> k" using le by (simp add: floor_le_iff)
    ultimately show ?thesis by simp
  next
    case False
    have "of_int \<lfloor>y\<rfloor> \<le> y" by simp
    with False have "of_int \<lfloor>y\<rfloor> < y" by (auto simp: less_le)
    with le have "of_int \<lfloor>y\<rfloor> < (of_int k :: real)" by linarith
    then have "\<lfloor>y\<rfloor> < k" by simp
    moreover have "round_even y \<le> \<lfloor>y\<rfloor> + 1" by (simp add: round_even_def Let_def)
    ultimately show ?thesis by simp
  qed
qed

lemma dyadicI: "d = of_int m / 2 ^ j \<Longrightarrow> \<bar>m\<bar> < 2 ^ 53 \<Longrightarrow> j \<le> 1074 \<Longrightarrow> dyadic d"
  unfolding dyadic_def by blast

text \<open>On the grid of spacing q, a dyadic number of at most that spacing is a grid point.\<close>

lemma grid_point:
  assumes "e - 52 \<le> - int j"
  shows "\<exists>k. (of_int m / 2 ^ j :: real) = of_int k * 2 powi (e - 52)"
proof -
  define n where "n = nat (- int j - (e - 52))"
  have n: "int n = - int j - (e - 52)" using assms by (simp add: n_def)
  have "(2::real) powi (- int j) = 2 powi (int n + (e - 52))" using n by simp
  also have "\<dots> = 2 ^ n * 2 powi (e - 52)"
    by (simp add: power_int_add)
  finally have "(1::real) / 2 ^ j = 2 ^ n * 2 powi (e - 52)"
    by (simp add: power_int_minus inverse_eq_divide)
  then have "of_int m * ((1::real) / 2 ^ j) = of_int m * (2 ^ n * 2 powi (e - 52))"
    by (simp only:)
  then have "(of_int m / 2 ^ j :: real) = of_int m * (2 ^ n * 2 powi (e - 52))" by simp
  also have "\<dots> = of_int (m * 2 ^ n) * 2 powi (e - 52)" by simp
  finally show ?thesis by blast
qed

lemma fl_bounds:
  assumes d: "d = of_int m / 2 ^ j" "\<bar>m\<bar> < 2 ^ 53" "j \<le> 1074"
  shows "(d \<le> x \<longrightarrow> d \<le> fl x) \<and> (x \<le> d \<longrightarrow> fl x \<le> d)"
proof (cases "x = 0")
  case True
  then show ?thesis by (simp add: fl_def)
next
  case False
  define e where "e = max (expo \<bar>x\<bar>) (- 1022)"
  define q :: real where "q = 2 powi (e - 52)"
  have q: "0 < q" by (simp add: q_def)
  have flx: "fl x = of_int (round_even (x / q)) * q"
    using False by (simp add: fl_def e_def q_def Let_def)
  show ?thesis
  proof (cases "e - 52 \<le> - int j")
    case True
    from grid_point[OF True, of m] obtain k where k: "d = of_int k * q"
      unfolding d(1) q_def by blast
    have "d \<le> fl x" if "d \<le> x"
    proof -
      from that have "of_int k \<le> x / q" using q by (simp add: k pos_le_divide_eq)
      then have "k \<le> round_even (x / q)" by (rule round_even_ge)
      then have "of_int k * q \<le> of_int (round_even (x / q)) * q"
        using q by (simp only: mult_le_cancel_right_pos of_int_le_iff)
      then show ?thesis by (simp only: k flx)
    qed
    moreover have "fl x \<le> d" if "x \<le> d"
    proof -
      from that have "x / q \<le> of_int k" using q by (simp add: k pos_divide_le_eq)
      then have "round_even (x / q) \<le> k" by (rule round_even_le)
      then have "of_int (round_even (x / q)) * q \<le> of_int k * q"
        using q by (simp only: mult_le_cancel_right_pos of_int_le_iff)
      then show ?thesis by (simp only: k flx)
    qed
    ultimately show ?thesis by blast
  next
    case False
    then have big: "53 - int j \<le> e" by simp
    then have "- 1022 < e" using d(3) by simp
    then have ee: "e = expo \<bar>x\<bar>" by (simp add: e_def)
    have pw: "2 powi e \<le> \<bar>x\<bar>" unfolding ee using \<open>x \<noteq> 0\<close> by (intro expo_le) simp
    have "(2::real) powi (53 - int j) \<le> 2 powi e"
      using big by (intro power_int_increasing) simp_all
    moreover have "\<bar>d\<bar> < 2 powi (53 - int j)"
    proof -
      have "\<bar>d\<bar> = of_int \<bar>m\<bar> / 2 ^ j" by (simp add: d(1) abs_divide)
      also have "\<dots> < 2 ^ 53 / 2 ^ j"
      proof -
        have "(of_int \<bar>m\<bar> :: real) < of_int (2 ^ 53)" using d(2) by (simp only: of_int_less_iff)
        then show ?thesis by (simp add: divide_strict_right_mono)
      qed
      also have "\<dots> = 2 powi (53 - int j)"
        by (simp add: power_int_diff)
      finally show ?thesis .
    qed
    ultimately have dlt: "\<bar>d\<bar> < 2 powi e" by linarith
    have eq: "(2::real) powi e = 2 ^ 52 * q"
    proof -
      have "(2::real) powi e = 2 powi (52 + (e - 52))" by simp
      also have "\<dots> = 2 powi 52 * 2 powi (e - 52)" by (rule power_int_add) simp
      finally show ?thesis by (simp add: q_def)
    qed
    show ?thesis
    proof (cases "0 < x")
      case True
      then have "of_int (2 ^ 52) \<le> x / q" using pw q by (simp add: eq pos_le_divide_eq)
      then have "2 ^ 52 \<le> round_even (x / q)" by (rule round_even_ge)
      then have "of_int (2 ^ 52) * q \<le> of_int (round_even (x / q)) * q"
        using q by (simp only: mult_le_cancel_right_pos of_int_le_iff)
      then have "2 powi e \<le> fl x" by (simp add: eq flx)
      then show ?thesis using dlt pw True by (simp add: abs_if split: if_splits; linarith)
    next
      case False
      then have neg: "x < 0" using \<open>x \<noteq> 0\<close> by simp
      then have "x / q \<le> of_int (- (2 ^ 52))" using pw q by (simp add: eq pos_divide_le_eq)
      then have "round_even (x / q) \<le> - (2 ^ 52)" by (rule round_even_le)
      then have "of_int (round_even (x / q)) * q \<le> of_int (- (2 ^ 52)) * q"
        using q by (simp only: mult_le_cancel_right_pos of_int_le_iff)
      then have "fl x \<le> - (2 powi e)" by (simp add: eq flx)
      then show ?thesis using dlt pw neg by (simp add: abs_if split: if_splits; linarith)
    qed
  qed
qed

lemma fl_ge: "dyadic d \<Longrightarrow> d \<le> x \<Longrightarrow> d \<le> fl x"
  unfolding dyadic_def using fl_bounds by blast

lemma fl_le: "dyadic d \<Longrightarrow> x \<le> d \<Longrightarrow> fl x \<le> d"
  unfolding dyadic_def using fl_bounds by blast

lemma fl_dyadic: "dyadic d \<Longrightarrow> fl d = d"
  using fl_ge[of d d] fl_le[of d d] by simp

lemma dyadic_int: "\<bar>k\<bar> < 2 ^ 53 \<Longrightarrow> dyadic (of_int k)"
  by (rule dyadicI[of _ k 0]) simp_all

section \<open>Properties of the encoder\<close>

lemma length_le_bytes: "length (le_bytes k n) = k"
  by (induction k arbitrary: n) auto




lemma pack_eq:
  "pack fs = (if fields_fit fs then Inr (concat (map (\<lambda>(k, n). le_bytes k n) fs))
              else Inl StructError)"
  by (induction fs) (auto simp: fields_fit_def pack_field_def)

lemma length_entry_bytes: "length (entry_bytes w h s off) = 16"
  by (simp add: entry_bytes_def length_le_bytes)

lemma pack_entry_eq:
  "w < 256 \<Longrightarrow> h < 256 \<Longrightarrow>
   pack_entry w h s off =
     (if s < 4294967296 \<and> off < 4294967296 then Inr (entry_bytes w h s off)
      else Inl StructError)"
  by (simp add: pack_entry_def pack_eq fields_fit_def fmt_B_def fmt_H_def fmt_I_def
      entry_bytes_def numeral_2_eq_2)

lemma pack_header_eq:
  "pack_header n = (if n < 65536 then Inr ([0, 0, 1, 0] @ le_bytes 2 n) else Inl StructError)"
  by (simp add: pack_header_def pack_eq fields_fit_def fmt_H_def numeral_2_eq_2)

lemma directory_loop_eq:
  "directory_loop ps acc off =
     (if dir_fits ps off then Inr (acc @ dir_bytes ps off) else Inl StructError)"
proof (induction ps arbitrary: acc off)
  case Nil
  then show ?case by simp
next
  case (Cons p ps)
  obtain img d where p: "p = (img, d)" by (cases p)
  have b: "dir_byte (width img) < 256" "dir_byte (height img) < 256"
    by (simp_all add: dir_byte_def)
  show ?case
    using pack_entry_eq[OF b, of "length d" off]
    by (simp add: p Cons.IH dir_byte_def[symmetric] Let_def)
qed

lemma length_dir_bytes: "length (dir_bytes ps off) = 16 * length ps"
  by (induction ps off rule: dir_bytes.induct) (simp_all add: length_entry_bytes)

lemma dir_bytes_entry:
  "i < length ps \<Longrightarrow>
   take 16 (drop (16 * i) (dir_bytes ps off)) =
     entry_bytes (dir_byte (width (fst (ps ! i)))) (dir_byte (height (fst (ps ! i))))
       (length (snd (ps ! i))) (off + sizes_before ps i)"
proof (induction ps off arbitrary: i rule: dir_bytes.induct)
  case (1 off)
  then show ?case by simp
next
  case (2 img d rest off)
  show ?case
  proof (cases i)
    case 0
    then show ?thesis by (simp add: length_entry_bytes sizes_before_def)
  next
    case (Suc j)
    then have "j < length rest" using 2 by simp
    from 2(1)[OF this] show ?thesis
      by (simp add: Suc length_entry_bytes sizes_before_def add.assoc)
  qed
qed

lemma dir_fits_iff:
  "dir_fits ps off \<longleftrightarrow>
   (\<forall>i<length ps. length (snd (ps ! i)) < 4294967296 \<and> off + sizes_before ps i < 4294967296)"
proof (induction ps off rule: dir_fits.induct)
  case (1 off)
  then show ?case by simp
next
  case (2 img d rest off)
  have "(\<forall>i<length ((img, d) # rest). P i) \<longleftrightarrow> P 0 \<and> (\<forall>i<length rest. P (Suc i))" for P
    by (auto simp: less_Suc_eq_0_disj)
  then show ?case
    by (simp add: 2 sizes_before_def add.assoc)
qed

lemma sizes_before_zip:
  "length datas = length images \<Longrightarrow>
   sizes_before (zip images datas) i = sum_list (map length (take i datas))"
proof -
  assume len: "length datas = length images"
  have "map (length \<circ> snd) (take i ps) = map length (take i (map snd ps))"
    for ps :: "(image \<times> byte list) list"
    by (simp add: take_map)
  moreover have "map snd (zip images datas) = datas"
    by (rule map_snd_zip) (simp add: len)
  ultimately show ?thesis by (simp add: sizes_before_def)
qed





lemma length_header_bytes: "length (header_bytes n) = 6"
  by (simp add: header_bytes_def length_le_bytes)

lemma drop_header: "length h = 6 \<Longrightarrow> drop (6 + k) (h @ r) = drop k r"
  by simp

lemma encode_loop_Inr:
  "encode_loop png images = Inr datas \<Longrightarrow> map png images = map Inr datas"
proof (induction images arbitrary: datas)
  case Nil
  then show ?case by simp
next
  case (Cons img rest)
  from Cons.prems obtain d ds where
    d: "png img = Inr d" and ds: "encode_loop png rest = Inr ds" and datas: "datas = d # ds"
    by (auto split: sum.splits)
  from Cons.IH[OF ds] show ?case by (simp add: d datas)
qed

lemma encode_loop_encoded:
  "map png images = map Inr datas \<Longrightarrow> encode_loop png images = Inr datas"
proof (induction images arbitrary: datas)
  case Nil
  then show ?case by simp
next
  case (Cons img rest)
  from Cons.prems obtain d ds where
    datas: "datas = d # ds" and d: "png img = Inr d" and ds: "map png rest = map Inr ds"
    by (cases datas) simp_all
  from Cons.IH[OF ds] show ?case by (simp add: d datas)
qed

lemma encoded_length: "map png images = map Inr datas \<Longrightarrow> length datas = length images"
  by (metis length_map)

lemma encoded_nth:
  "map png images = map Inr datas \<Longrightarrow> i < length images \<Longrightarrow> png (images ! i) = Inr (datas ! i)"
  by (metis length_map nth_map)

lemma create_ico_eq:
  assumes "map png images = map Inr datas"
  shows "create_ico png images =
     (if length images < 65536 \<and> dir_fits (zip images datas) (6 + 16 * length images)
      then Inr (ico_bytes images datas) else Inl StructError)"
proof -
  have "encode_loop png images = Inr datas" using assms by (rule encode_loop_encoded)
  then show ?thesis
    by (simp add: create_ico_def pack_header_eq directory_loop_eq ico_bytes_def header_bytes_def
        Let_def mult.commute)
qed

lemma create_ico_Inr:
  assumes "create_ico png images = Inr bs"
  shows "\<exists>datas. map png images = map Inr datas \<and> length datas = length images
           \<and> bs = ico_bytes images datas"
proof (cases "encode_loop png images")
  case (Inl e)
  with assms show ?thesis
    by (simp add: create_ico_def Let_def split: sum.splits)
next
  case (Inr datas)
  then have enc: "map png images = map Inr datas" by (rule encode_loop_Inr)
  then have "bs = ico_bytes images datas"
    using assms by (simp add: create_ico_eq split: if_splits)
  with enc show ?thesis by (blast dest: encoded_length)
qed

lemma dir_fits_zip:
  "length datas = length images \<Longrightarrow>
   dir_fits (zip images datas) (6 + 16 * length images) \<longleftrightarrow>
   (\<forall>i<length images. length (datas ! i) < 4294967296 \<and> payload_start datas i < 4294967296)"
  by (simp add: dir_fits_iff sizes_before_zip payload_start_def)

lemma length_ico_bytes:
  "length datas = length images \<Longrightarrow>
   length (ico_bytes images datas) = 6 + 16 * length images + length (concat datas)"
  by (simp add: ico_bytes_def length_header_bytes length_dir_bytes)


lemma entry_at_ico_bytes:
  assumes len: "length datas = length images" and "i < length images"
  shows "entry_at (ico_bytes images datas) i =
     entry_bytes (dir_byte (width (images ! i))) (dir_byte (height (images ! i)))
       (length (datas ! i)) (payload_start datas i)"
proof -
  let ?ps = "zip images datas"
  let ?dir = "dir_bytes ?ps (6 + 16 * length images)"
  have i: "i < length ?ps" using assms by simp
  have "16 * i + 16 \<le> length ?dir" using assms by (simp add: length_dir_bytes)
  then have "take 16 (drop (16 * i) (?dir @ concat datas)) = take 16 (drop (16 * i) ?dir)"
    by simp
  moreover have "drop (6 + 16 * i) (ico_bytes images datas) = drop (16 * i) (?dir @ concat datas)"
    by (simp only: ico_bytes_def drop_header[OF length_header_bytes])
  ultimately have "entry_at (ico_bytes images datas) i = take 16 (drop (16 * i) ?dir)"
    by (simp add: entry_at_def)
  then show ?thesis
    using dir_bytes_entry[OF i, of "6 + 16 * length images"] assms
    by (simp add: sizes_before_zip payload_start_def)
qed






lemma u8_at_entry_width:
  "w < 256 \<Longrightarrow> u8_at (entry_bytes w h s off) 0 = w"
  by (simp add: u8_at_def entry_bytes_def unat_of_nat)

lemma u8_at_entry_height:
  "h < 256 \<Longrightarrow> u8_at (entry_bytes w h s off) (Suc 0) = h"
  by (simp add: u8_at_def entry_bytes_def unat_of_nat)

lemma u8_at_entry_at:
  "6 + 16 * i + 16 \<le> length bs \<Longrightarrow> k < 16 \<Longrightarrow> u8_at bs (6 + 16 * i + k) = u8_at (entry_at bs i) k"
  by (simp add: u8_at_def entry_at_def add.commute add.left_commute)

lemma ico_width_byte:
  assumes len: "length datas = length images" and i: "i < length images"
  shows "u8_at (ico_bytes images datas) (6 + 16 * i) = dir_byte (width (images ! i))"
    and "u8_at (ico_bytes images datas) (6 + 16 * i + 1) = dir_byte (height (images ! i))"
proof -
  have l: "6 + 16 * i + 16 \<le> length (ico_bytes images datas)"
    using i by (simp add: length_ico_bytes[OF len])
  have b: "dir_byte (width (images ! i)) < 256" "dir_byte (height (images ! i)) < 256"
    by (simp_all add: dir_byte_def)
  show "u8_at (ico_bytes images datas) (6 + 16 * i) = dir_byte (width (images ! i))"
    using u8_at_entry_at[OF l, of 0] b
    by (simp add: entry_at_ico_bytes[OF len i] u8_at_entry_width)
  show "u8_at (ico_bytes images datas) (6 + 16 * i + 1) = dir_byte (height (images ! i))"
    using u8_at_entry_at[OF l, of 1] b
    by (simp add: entry_at_ico_bytes[OF len i] u8_at_entry_height)
qed

text \<open>
  C4: in the container that \<open>create_ico\<close> produces, the directory entry of an image of
  exactly 256 by 256 pixels has width byte and height byte 0, and that of an image of 128 by
  128 pixels has both bytes 128. Entry \<open>i\<close> starts at byte \<open>6 + 16 * i\<close>; its first two
  bytes are the width and the height byte.
\<close>

theorem create_ico_size_bytes:
  assumes "create_ico png images = Inr bs" and "i < length images"
  shows "(width (images ! i) = 256 \<and> height (images ! i) = 256 \<longrightarrow>
            u8_at bs (6 + 16 * i) = 0 \<and> u8_at bs (6 + 16 * i + 1) = 0)
       \<and> (width (images ! i) = 128 \<and> height (images ! i) = 128 \<longrightarrow>
            u8_at bs (6 + 16 * i) = 128 \<and> u8_at bs (6 + 16 * i + 1) = 128)"
proof -
  from create_ico_Inr[OF assms(1)] obtain datas where
    len: "length datas = length images" and bs: "bs = ico_bytes images datas"
    by blast
  show ?thesis
    using ico_width_byte[OF len assms(2)] by (simp add: bs dir_byte_def)
qed

lemma le_bytes_numeral:
  "le_bytes (numeral k) n = of_nat (n mod 256) # le_bytes (pred_numeral k) (n div 256)"
proof -
  have "le_bytes (numeral k) n = le_bytes (Suc (pred_numeral k)) n"
    by (simp only: numeral_eq_Suc)
  then show ?thesis by (simp only: le_bytes.simps)
qed

lemmas run_ico = create_ico_def pack_header_def pack_entry_def pack_field_def fmt_B_def fmt_H_def
  fmt_I_def blank_def png_signature_def le_bytes_numeral

lemma create_ico_two:
  "create_ico png_signature [blank 128 128, blank 256 256] =
     Inr ([0, 0, 1, 0, 2, 0,
           128, 128, 0, 0, 1, 0, 32, 0, 8, 0, 0, 0, 38, 0, 0, 0,
           0, 0, 0, 0, 1, 0, 32, 0, 8, 0, 0, 0, 46, 0, 0, 0,
           137, 80, 78, 71, 13, 10, 26, 10, 137, 80, 78, 71, 13, 10, 26, 10])"
  by (simp add: run_ico)

text \<open>C4 at a concrete input: a 128 by 128 image followed by a 256 by 256 image.\<close>

theorem create_ico_size_bytes_witness:
  "\<exists>bs. create_ico png_signature [blank 128 128, blank 256 256] = Inr bs
     \<and> u8_at bs 6 = 128 \<and> u8_at bs 7 = 128 \<and> u8_at bs 22 = 0 \<and> u8_at bs 23 = 0"
proof -
  note run = create_ico_two
  have "width (blank 128 128) = 128" "height (blank 128 128) = 128"
    "width (blank 256 256) = 256" "height (blank 256 256) = 256"
    by (simp_all add: blank_def)
  then show ?thesis
    using create_ico_size_bytes[OF run, of 0] create_ico_size_bytes[OF run, of 1] run
    by simp
qed






text \<open>An image that does not encode ends \<open>create_ico\<close> with the encoder's exception.\<close>

lemma create_ico_encoder_error:
  "create_ico png_signature [blank 16 16, blank 0 0] = Inl ValueError"
  by (simp add: run_ico)

text \<open>
  C9: \<open>create_ico\<close> writes the width byte 0 for every image whose width is 256 or more, and
  the height byte 0 for every image whose height is 256 or more. The dimensions are not
  validated: \<open>create_ico\<close> succeeds whenever every image encodes, the number of images
  fits 16 bits and the payload lengths and offsets fit 32 bits.
\<close>

theorem create_ico_oversize:
  assumes "i < length images"
  shows "(create_ico png images = Inr bs \<longrightarrow>
            (256 \<le> width (images ! i) \<longrightarrow> u8_at bs (6 + 16 * i) = 0)
          \<and> (256 \<le> height (images ! i) \<longrightarrow> u8_at bs (6 + 16 * i + 1) = 0))
       \<and> (length images < 65536
            \<and> map png images = map Inr datas
            \<and> (\<forall>k<length images. length (datas ! k) < 4294967296
                  \<and> payload_start datas k < 4294967296)
          \<longrightarrow> (\<exists>bs'. create_ico png images = Inr bs'))"
proof -
  have "u8_at bs (6 + 16 * i) = dir_byte (width (images ! i))
      \<and> u8_at bs (6 + 16 * i + 1) = dir_byte (height (images ! i))"
    if "create_ico png images = Inr bs"
  proof -
    from create_ico_Inr[OF that] obtain ds where
      len: "length ds = length images" and bs: "bs = ico_bytes images ds"
      by blast
    show ?thesis using ico_width_byte[OF len assms] by (simp add: bs)
  qed
  moreover have "\<exists>bs'. create_ico png images = Inr bs'"
    if "length images < 65536" "map png images = map Inr datas"
      "\<forall>k<length images. length (datas ! k) < 4294967296 \<and> payload_start datas k < 4294967296"
    using that by (simp add: create_ico_eq[OF that(2)] dir_fits_zip[OF encoded_length[OF that(2)]])
  ultimately show ?thesis
    by (simp add: dir_byte_def)
qed

lemma create_ico_512:
  "create_ico png_signature [blank 512 512] =
     Inr ([0, 0, 1, 0, 1, 0,
           0, 0, 0, 0, 1, 0, 32, 0, 8, 0, 0, 0, 22, 0, 0, 0,
           137, 80, 78, 71, 13, 10, 26, 10])"
  by (simp add: run_ico)

text \<open>C9 at a concrete input: one image of 512 by 512 pixels is declared as 256 by 256.\<close>

theorem create_ico_oversize_witness:
  "\<exists>bs. create_ico png_signature [blank 512 512] = Inr bs \<and> u8_at bs 6 = 0 \<and> u8_at bs 7 = 0"
proof -
  have "width (blank 512 512) = 512" "height (blank 512 512) = 512"
    by (simp_all add: blank_def)
  then show ?thesis
    using create_ico_oversize[of 0 "[blank 512 512]" png_signature] create_ico_512
    by simp
qed

text \<open>
  C10: for an empty list of images \<open>create_ico\<close> raises nothing and writes exactly the six
  header bytes: reserved = 0, type = 1, count = 0, no directory entry and no payload.
\<close>

theorem create_ico_empty:
  "create_ico png [] = Inr [0, 0, 1, 0, 0, 0]"
  by (simp add: create_ico_def pack_header_def pack_field_def fmt_H_def numeral_2_eq_2)

section \<open>Properties of the composer\<close>

subsection \<open>Colour interpolation\<close>

lemmas fl_eval = fl_def expo_def round_even_def fadd_def fsub_def fmul_def fdiv_def i2f_def
  log2n.simps Let_def

lemma i2f_small: "\<bar>k\<bar> < 2 ^ 53 \<Longrightarrow> i2f k = of_int k"
  unfolding i2f_def by (rule fl_dyadic[OF dyadic_int])

lemma py_int_of_int: "py_int (of_int a) = a"
  by (simp add: py_int_def)

lemma py_int_nonneg: "0 \<le> x \<Longrightarrow> py_int x = \<lfloor>x\<rfloor>"
  by (simp add: py_int_def)

lemma fl_int_bounds:
  assumes "\<bar>lo\<bar> < 2 ^ 53" "\<bar>hi\<bar> < 2 ^ 53" "of_int lo \<le> x" "x \<le> of_int hi"
  shows "of_int lo \<le> fl x \<and> fl x \<le> of_int hi"
  using fl_ge[OF dyadic_int[OF assms(1)] assms(3)] fl_le[OF dyadic_int[OF assms(2)] assms(4)]
  by simp

text \<open>One channel of \<open>lerp_color\<close>, for channel values in \<open>[0, 255]\<close> and \<open>t\<close> in \<open>[0, 1]\<close>.\<close>

lemma lerp_channel:
  assumes a: "0 \<le> a" "a \<le> 255" and b: "0 \<le> b" "b \<le> 255" and t: "0 \<le> t" "t \<le> 1"
  defines "v \<equiv> fadd (i2f a) (fmul (i2f (b - a)) t)"
  shows "v = fadd (of_int a) (fmul (of_int (b - a)) t)"
    and "of_int (min a b) \<le> v" and "v \<le> of_int (max a b)"
proof -
  have ia: "i2f a = of_int a" and iba: "i2f (b - a) = of_int (b - a)"
    using a b by (simp_all add: i2f_small)
  show "v = fadd (of_int a) (fmul (of_int (b - a)) t)"
    by (simp add: v_def ia iba)
  let ?p = "of_int (b - a) * t :: real"
  have p: "of_int (min 0 (b - a)) \<le> ?p \<and> ?p \<le> of_int (max 0 (b - a))"
  proof (cases "a \<le> b")
    case True
    then have "0 \<le> ?p" using t by simp
    moreover have "?p \<le> of_int (b - a) * 1"
      using True t by (intro mult_left_mono) simp_all
    ultimately show ?thesis using True by simp
  next
    case False
    then have neg: "(of_int (b - a) :: real) \<le> 0" by simp
    then have "?p \<le> 0" using t by (simp add: mult_nonpos_nonneg)
    moreover have "of_int (b - a) * 1 \<le> ?p"
      using neg t by (intro mult_left_mono_neg) simp_all
    ultimately show ?thesis using False by simp
  qed
  have m: "of_int (min 0 (b - a)) \<le> fmul (of_int (b - a)) t
         \<and> fmul (of_int (b - a)) t \<le> of_int (max 0 (b - a))"
    unfolding fmul_def using a b p by (intro fl_int_bounds) simp_all
  have s: "of_int (min a b) \<le> of_int a + fmul (of_int (b - a)) t
         \<and> of_int a + fmul (of_int (b - a)) t \<le> of_int (max a b)"
    using m by (simp add: min_def max_def split: if_splits)
  have "of_int (min a b) \<le> fl (of_int a + fmul (of_int (b - a)) t)
      \<and> fl (of_int a + fmul (of_int (b - a)) t) \<le> of_int (max a b)"
    using a b s by (intro fl_int_bounds) simp_all
  then show "of_int (min a b) \<le> v" and "v \<le> of_int (max a b)"
    by (simp_all add: v_def ia iba fadd_def)
qed


lemma lerp_channel_floor:
  assumes "0 \<le> a" "a \<le> 255" "0 \<le> b" "b \<le> 255" "0 \<le> t" "t \<le> 1"
  shows "py_int (fadd (i2f a) (fmul (i2f (b - a)) t)) = \<lfloor>fadd (of_int a) (fmul (of_int (b - a)) t)\<rfloor>"
    and "min a b \<le> py_int (fadd (i2f a) (fmul (i2f (b - a)) t))"
    and "py_int (fadd (i2f a) (fmul (i2f (b - a)) t)) \<le> max a b"
proof -
  let ?v = "fadd (i2f a) (fmul (i2f (b - a)) t)"
  note ch = lerp_channel[OF assms]
  have "(0::real) \<le> of_int (min a b)" using assms by simp
  then have nn: "0 \<le> ?v" using ch(2) by linarith
  then have fl: "py_int ?v = \<lfloor>?v\<rfloor>" by (rule py_int_nonneg)
  show "py_int ?v = \<lfloor>fadd (of_int a) (fmul (of_int (b - a)) t)\<rfloor>"
    using fl ch(1) by simp
  show "min a b \<le> py_int ?v" using ch(2) by (simp only: fl le_floor_iff)
  have "\<lfloor>?v\<rfloor> \<le> \<lfloor>of_int (max a b) :: real\<rfloor>" using ch(3) by (rule floor_mono)
  then show "py_int ?v \<le> max a b" by (simp only: fl floor_of_int)
qed

lemma fl_of_int: "\<bar>k\<bar> < 2 ^ 53 \<Longrightarrow> fl (of_int k) = of_int k"
  by (rule fl_dyadic[OF dyadic_int])

lemma lerp_channel_zero:
  assumes "0 \<le> a" "a \<le> 255"
  shows "py_int (fadd (i2f a) (fmul (i2f (b - a)) 0)) = a"
proof -
  have a: "\<bar>a\<bar> < 2 ^ 53" using assms by simp
  have "fmul (i2f (b - a)) 0 = 0" by (simp add: fmul_def fl_def)
  then have "fadd (i2f a) (fmul (i2f (b - a)) 0) = fl (of_int a)"
    by (simp add: fadd_def i2f_small[OF a])
  then show ?thesis by (simp only: fl_of_int[OF a] py_int_of_int)
qed

lemma lerp_channel_one:
  assumes "0 \<le> a" "a \<le> 255" "0 \<le> b" "b \<le> 255"
  shows "py_int (fadd (i2f a) (fmul (i2f (b - a)) 1)) = b"
proof -
  have a: "\<bar>a\<bar> < 2 ^ 53" and b: "\<bar>b\<bar> < 2 ^ 53" and d: "\<bar>b - a\<bar> < 2 ^ 53"
    using assms by simp_all
  have "fmul (i2f (b - a)) 1 = of_int (b - a)"
    by (simp only: fmul_def mult_1_right i2f_small[OF d] fl_of_int[OF d])
  then have "fadd (i2f a) (fmul (i2f (b - a)) 1) = fl (of_int a + of_int (b - a))"
    by (simp only: fadd_def i2f_small[OF a])
  also have "of_int a + of_int (b - a) = (of_int b :: real)" by simp
  finally show ?thesis by (simp only: fl_of_int[OF b] py_int_of_int)
qed

lemma half_dyadic: "\<bar>k\<bar> < 2 ^ 53 \<Longrightarrow> dyadic (of_int k / 2)"
  by (rule dyadicI[of _ k 1]) simp_all

lemma lerp_channel_half:
  assumes "0 \<le> a" "a \<le> 255" "0 \<le> b" "b \<le> 255"
  shows "py_int (fadd (i2f a) (fmul (i2f (b - a)) (1 / 2))) = (a + b) div 2"
proof -
  have a: "\<bar>a\<bar> < 2 ^ 53" and d: "\<bar>b - a\<bar> < 2 ^ 53" and s: "\<bar>a + b\<bar> < 2 ^ 53"
    using assms by simp_all
  have "fmul (i2f (b - a)) (1 / 2) = fl (of_int (b - a) / 2)"
    by (simp only: fmul_def i2f_small[OF d] times_divide_eq_right mult_1_right)
  also have "\<dots> = of_int (b - a) / 2"
    by (rule fl_dyadic[OF half_dyadic[OF d]])
  finally have "fadd (i2f a) (fmul (i2f (b - a)) (1 / 2)) = fl (of_int a + of_int (b - a) / 2)"
    by (simp only: fadd_def i2f_small[OF a])
  also have "of_int a + of_int (b - a) / 2 = (of_int (a + b) / 2 :: real)"
    by (simp add: field_simps)
  also have "fl (of_int (a + b) / 2) = of_int (a + b) / 2"
    by (rule fl_dyadic[OF half_dyadic[OF s]])
  finally have v: "fadd (i2f a) (fmul (i2f (b - a)) (1 / 2)) = of_int (a + b) / of_int 2"
    by simp
  have "(0::real) \<le> of_int (a + b) / of_int 2" using assms by simp
  then show ?thesis
    unfolding v by (simp only: py_int_nonneg floor_divide_of_int_eq)
qed

text \<open>
  C2, as amended: for colours of equal length with channels in \<open>[0, 255]\<close> and a fraction
  \<open>t\<close> in \<open>[0, 1]\<close>, \<open>lerp_color\<close> returns per channel the value \<open>c1 + (c2 - c1) * t\<close> as
  computed in double arithmetic, rounded down (\<open>int\<close> truncates, and the value is not
  negative); the result lies between the two channel values; at \<open>t = 0\<close> it is \<open>c1\<close>, at
  \<open>t = 1\<close> it is \<open>c2\<close>, and at \<open>t = 0.5\<close> the channel-wise average rounded down.
\<close>

theorem lerp_color_truncates:
  assumes len: "length c1 = length c2"
    and c1: "\<forall>a\<in>set c1. 0 \<le> a \<and> a \<le> 255" and c2: "\<forall>b\<in>set c2. 0 \<le> b \<and> b \<le> 255"
    and t: "0 \<le> t" "t \<le> 1"
  shows "lerp_color c1 c2 t
           = map (\<lambda>(a, b). \<lfloor>fadd (of_int a) (fmul (of_int (b - a)) t)\<rfloor>) (zip c1 c2)
       \<and> (\<forall>i<length c1. min (c1 ! i) (c2 ! i) \<le> lerp_color c1 c2 t ! i
                         \<and> lerp_color c1 c2 t ! i \<le> max (c1 ! i) (c2 ! i))
       \<and> lerp_color c1 c2 0 = c1
       \<and> lerp_color c1 c2 1 = c2
       \<and> lerp_color c1 c2 (1 / 2) = map (\<lambda>(a, b). (a + b) div 2) (zip c1 c2)"
proof -
  have ch: "0 \<le> a \<and> a \<le> 255 \<and> 0 \<le> b \<and> b \<le> 255" if "(a, b) \<in> set (zip c1 c2)" for a b
    using that c1 c2 by (auto dest: set_zip_leftD set_zip_rightD)
  have general: "lerp_color c1 c2 t
           = map (\<lambda>(a, b). \<lfloor>fadd (of_int a) (fmul (of_int (b - a)) t)\<rfloor>) (zip c1 c2)"
    unfolding lerp_color_def using ch t by (auto simp: lerp_channel_floor(1))
  have between: "min (c1 ! i) (c2 ! i) \<le> lerp_color c1 c2 t ! i
               \<and> lerp_color c1 c2 t ! i \<le> max (c1 ! i) (c2 ! i)" if i: "i < length c1" for i
  proof -
    have "(c1 ! i, c2 ! i) \<in> set (zip c1 c2)"
      using i len by (metis in_set_zip fst_conv snd_conv)
    from ch[OF this] have r: "0 \<le> c1 ! i" "c1 ! i \<le> 255" "0 \<le> c2 ! i" "c2 ! i \<le> 255"
      by simp_all
    have "lerp_color c1 c2 t ! i
            = py_int (fadd (i2f (c1 ! i)) (fmul (i2f (c2 ! i - c1 ! i)) t))"
      using i len by (simp add: lerp_color_def)
    then show ?thesis
      using lerp_channel_floor(2,3)[OF r t] by simp
  qed
  have zero: "lerp_color c1 c2 0 = c1"
  proof -
    have "map (\<lambda>(a, b). py_int (fadd (i2f a) (fmul (i2f (b - a)) 0))) (zip c1 c2)
            = map fst (zip c1 c2)"
      using ch by (intro map_cong refl) (auto simp: lerp_channel_zero)
    then show ?thesis using len by (simp add: lerp_color_def)
  qed
  have one: "lerp_color c1 c2 1 = c2"
  proof -
    have "map (\<lambda>(a, b). py_int (fadd (i2f a) (fmul (i2f (b - a)) 1))) (zip c1 c2)
            = map snd (zip c1 c2)"
      using ch by (intro map_cong refl) (auto simp: lerp_channel_one)
    then show ?thesis using len by (simp add: lerp_color_def)
  qed
  have half: "lerp_color c1 c2 (1 / 2) = map (\<lambda>(a, b). (a + b) div 2) (zip c1 c2)"
    unfolding lerp_color_def using ch by (intro map_cong refl) (auto simp: lerp_channel_half)
  show ?thesis using general between zero one half by blast
qed

text \<open>C2 at the first two orbital colours.\<close>

theorem lerp_color_truncates_witness:
  "lerp_color [60, 120, 255] [160, 60, 220] (1 / 4) = [85, 105, 246]
     \<and> lerp_color [60, 120, 255] [160, 60, 220] 0 = [60, 120, 255]
     \<and> lerp_color [60, 120, 255] [160, 60, 220] 1 = [160, 60, 220]
     \<and> lerp_color [60, 120, 255] [160, 60, 220] (1 / 2) = [110, 90, 237]"
proof -
  have "\<forall>a\<in>set [60, 120, 255 :: int]. 0 \<le> a \<and> a \<le> 255"
    "\<forall>b\<in>set [160, 60, 220 :: int]. 0 \<le> b \<and> b \<le> 255" by simp_all
  from lerp_color_truncates[OF _ this, of "1 / 4"]
  have "lerp_color [60, 120, 255] [160, 60, 220] (1 / 4)
          = [\<lfloor>fadd 60 (fmul 100 (1 / 4))\<rfloor>, \<lfloor>fadd 120 (fmul (- 60) (1 / 4))\<rfloor>,
             \<lfloor>fadd 255 (fmul (- 35) (1 / 4))\<rfloor>]"
    and rest: "lerp_color [60, 120, 255] [160, 60, 220] 0 = [60, 120, 255]
     \<and> lerp_color [60, 120, 255] [160, 60, 220] 1 = [160, 60, 220]
     \<and> lerp_color [60, 120, 255] [160, 60, 220] (1 / 2) = [110, 90, 237]"
    by simp_all
  moreover have "\<lfloor>fadd 60 (fmul 100 (1 / 4))\<rfloor> = 85" "\<lfloor>fadd 120 (fmul (- 60) (1 / 4))\<rfloor> = 105"
    "\<lfloor>fadd 255 (fmul (- 35) (1 / 4))\<rfloor> = 246"
    by (simp_all add: fl_eval)
  ultimately show ?thesis by simp
qed

text \<open>
  C2 as stated fails: between black and white at \<open>t = 0.25\<close> the value of each channel
  is 63.75, in double arithmetic as in exact arithmetic; \<open>lerp_color\<close> returns 63, the
  nearest integer is 64.
\<close>

theorem lerp_color_not_rounded:
  "lerp_color [0, 0, 0] [255, 255, 255] (1 / 4) = [63, 63, 63]
     \<and> lerp_color_rounded [0, 0, 0] [255, 255, 255] (1 / 4) = [64, 64, 64]"
  by (simp add: lerp_color_def lerp_color_rounded_def py_int_def round_def fl_eval)

text \<open>
  Double rounding shows in the result: at \<open>t = 0x1.9999999999999p-4\<close>, just below one
  tenth, the product \<open>200 * t\<close> rounds up to 20, where the exact value is below 20.
\<close>

lemma lerp_color_double_rounding:
  "lerp_color [0, 0, 0] [200, 200, 200] (7205759403792793 / 72057594037927936) = [20, 20, 20]"
  by (simp add: lerp_color_def py_int_def fl_eval)

subsection \<open>The gradient arc\<close>

lemma arc_point_orbit:
  "arc_point M cx cy rx ry a0 a1 (cos_d M r) (sin_d M r) t =
     (case orbit_point M cx cy rx ry (radians (fadd a0 (fmul (fsub a1 a0) t))) r of
        (px, py) \<Rightarrow> (px, py, t))"
  by (simp add: arc_point_def orbit_point_def Let_def)

lemma draw_thick_arc_200:
  "(draw_thick_arc M cx cy rx ry a0 a1 rot wd cs ce 200 :: py_error + 'f draw_cmd list) =
     Inr (map (\<lambda>i. Line
                 (orbit_point M cx cy rx ry
                    (radians (fadd a0 (fmul (fsub a1 a0) (fdiv (real i) 200)))) rot)
                 (orbit_point M cx cy rx ry
                    (radians (fadd a0 (fmul (fsub a1 a0) (fdiv (real (i + 1)) 200)))) rot)
                 (lerp_color cs ce (fdiv (fadd (fdiv (real i) 200) (fdiv (real (i + 1)) 200)) 2))
                 wd)
              [0..<200])"
proof -
  have nth: "[0..200] ! i = int i" if "i \<le> 200" for i
    using that nth_upto[of 0 i 200] by simp
  have len: "length [0..(200::int)] = 201" by simp
  show ?thesis
    unfolding draw_thick_arc_def
    apply (simp only: Let_def len length_map)
    apply (simp add: nth arc_point_orbit split_beta del: upto.simps)
    done
qed

text \<open>
  C7: \<open>draw_thick_arc\<close>, with its default of 200 steps as \<open>draw_orbital\<close> calls it, draws
  a polyline of 200 segments through the 201 points of the rotated ellipse at the fractions
  \<open>i / 200\<close> of the angular span; segment \<open>i\<close> joins the points at \<open>i / 200\<close> and
  \<open>(i + 1) / 200\<close> and has the colour \<open>lerp_color color_start color_end t_mid\<close>, where
  \<open>t_mid\<close> is the midpoint of these two fractions. Fractions, angles and points are those
  of double arithmetic.
\<close>

theorem draw_thick_arc_polyline:
  "\<exists>segs. (draw_thick_arc M cx cy rx ry a0 a1 rot wd cs ce default_steps
                  :: py_error + 'f draw_cmd list) = Inr segs
     \<and> default_steps = 200
     \<and> draw_orbital M cx cy rx ry rot cs ce wd a0 a1 = Inr segs
     \<and> length segs = 200
     \<and> (\<forall>i<200. segs ! i =
           Line (orbit_point M cx cy rx ry
                   (radians (fadd a0 (fmul (fsub a1 a0) (fdiv (real i) 200)))) rot)
                (orbit_point M cx cy rx ry
                   (radians (fadd a0 (fmul (fsub a1 a0) (fdiv (real (i + 1)) 200)))) rot)
                (lerp_color cs ce (fdiv (fadd (fdiv (real i) 200) (fdiv (real (i + 1)) 200)) 2))
                wd)"
proof -
  let ?seg = "\<lambda>i. Line
                 (orbit_point M cx cy rx ry
                    (radians (fadd a0 (fmul (fsub a1 a0) (fdiv (real i) 200)))) rot)
                 (orbit_point M cx cy rx ry
                    (radians (fadd a0 (fmul (fsub a1 a0) (fdiv (real (i + 1)) 200)))) rot)
                 (lerp_color cs ce (fdiv (fadd (fdiv (real i) 200) (fdiv (real (i + 1)) 200)) 2))
                 wd :: 'f draw_cmd"
  have run: "draw_thick_arc M cx cy rx ry a0 a1 rot wd cs ce default_steps = Inr (map ?seg [0..<200])"
    unfolding default_steps_def by (rule draw_thick_arc_200)
  have "map ?seg [0..<200] ! i = ?seg i" if "i < 200" for i
    using that by (simp del: of_nat_add of_nat_Suc upt_Suc)
  then show ?thesis
    using run by (intro exI[of _ "map ?seg [0..<200]"]) (simp add: draw_orbital_def default_steps_def)
qed

text \<open>
  C7 at the back half of the first orbital: 200 segments, the first one in the colour at
  the midpoint of 0 and 1/200.
\<close>

theorem draw_thick_arc_polyline_witness:
  "\<exists>segs p q. (draw_orbital coarse_libm 512 512 340 130 (radians (-30)) BLUE PURPLE 16 180 360
                 :: py_error + unit draw_cmd list) = Inr segs
     \<and> length segs = 200 \<and> segs ! 0 = Line p q [60, 119, 254] 16"
proof -
  from draw_thick_arc_polyline[of coarse_libm 512 512 340 130 180 360 "radians (-30)" 16 BLUE PURPLE]
  obtain segs :: "unit draw_cmd list" where segs:
    "draw_orbital coarse_libm 512 512 340 130 (radians (-30)) BLUE PURPLE 16 180 360 = Inr segs"
    "length segs = 200"
    "\<forall>i<200. segs ! i =
           Line (orbit_point coarse_libm 512 512 340 130
                   (radians (fadd 180 (fmul (fsub 360 180) (fdiv (real i) 200)))) (radians (-30)))
                (orbit_point coarse_libm 512 512 340 130
                   (radians (fadd 180 (fmul (fsub 360 180) (fdiv (real (i + 1)) 200)))) (radians (-30)))
                (lerp_color BLUE PURPLE (fdiv (fadd (fdiv (real i) 200) (fdiv (real (i + 1)) 200)) 2))
                16"
    by blast
  have col: "lerp_color BLUE PURPLE (fdiv (fadd (fdiv (real 0) 200) (fdiv (real (0 + 1)) 200)) 2)
        = [60, 119, 254]"
    by (simp add: lerp_color_def BLUE_def PURPLE_def py_int_def fl_eval)
  have "(0::nat) < 200" by simp
  with segs(3) have "segs ! 0 =
           Line (orbit_point coarse_libm 512 512 340 130
                   (radians (fadd 180 (fmul (fsub 360 180) (fdiv (real 0) 200)))) (radians (-30)))
                (orbit_point coarse_libm 512 512 340 130
                   (radians (fadd 180 (fmul (fsub 360 180) (fdiv (real (0 + 1)) 200)))) (radians (-30)))
                (lerp_color BLUE PURPLE (fdiv (fadd (fdiv (real 0) 200) (fdiv (real (0 + 1)) 200)) 2))
                16"
    by blast
  then have "\<exists>p q. segs ! 0 = Line p q [60, 119, 254] 16"
    unfolding col by blast
  with segs(1,2) show ?thesis by blast
qed

text \<open>
  The colour of a segment is the one the script computes: for a channel running from 0
  to 240, segment 102 has \<open>t_mid = 0.5125\<close> and \<open>240 * t_mid\<close> is the double just below
  123, so the channel is 122.
\<close>

lemma segment_102_colour:
  "lerp_color [0] [240] (fdiv (fadd (fdiv 102 200) (fdiv 103 200)) 2) = [122]"
  by (simp add: lerp_color_def py_int_def fl_eval)

subsection \<open>Electron positions\<close>

lemma electron_position_orbit:
  "electron_position M cx cy rx ry rot_deg angle_deg
     = orbit_point M cx cy rx ry (radians (i2f angle_deg)) (radians (i2f rot_deg))"
  by (simp add: electron_position_def orbit_point_def Let_def)

lemma i2f_constants:
  "i2f 512 = 512" "i2f 340 = 340" "i2f 130 = 130" "i2f 220 = 220" "i2f 40 = 40" "i2f 90 = 90"
  "i2f (- 30) = - 30" "i2f 30 = 30" "i2f 180 = 180" "i2f 360 = 360" "i2f 0 = 0" "i2f 22 = 22"
  using i2f_small[of 512] i2f_small[of 340] i2f_small[of 130] i2f_small[of 220] i2f_small[of 40]
    i2f_small[of 90] i2f_small[of "- 30"] i2f_small[of 30] i2f_small[of 180] i2f_small[of 360]
    i2f_small[of 0] i2f_small[of 22]
  by simp_all

lemma spheres_eq:
  "(spheres M :: 'f draw_cmd list) =
     (let (x0, y0) = orbit_point M 512 512 340 130 (radians 220) (radians (- 30));
          (x1, y1) = orbit_point M 512 512 340 130 (radians 40) (radians 90)
      in draw_sphere (py_int x0) (py_int y0) 22 [80, 130, 255] [180, 200, 255]
         @ draw_sphere (py_int x1) (py_int y1) 22 [255, 160, 30] [255, 220, 140])"
  by (simp add: spheres_def electrons_def orbitals_def SIZE_def split_beta Let_def
      electron_position_orbit i2f_constants)

subsection \<open>Sparkle colours\<close>

lemma sparkle_loop_colors:
  "fst (sparkle_loop R g ps) = map (\<lambda>b. [255, 255, b]) (draws R g (length ps))"
proof (induction ps arbitrary: g)
  case Nil
  then show ?case by simp
next
  case (Cons p ps)
  obtain sx sy ss where p: "p = (sx, sy, ss)" by (cases p)
  show ?case by (simp add: p Cons.IH split_beta Let_def)
qed

text \<open>
  C5: the sparkle step seeds the generator with 42 before it draws, so the colours do not
  depend on the state the generator was in: any two runs of the step give the same twelve
  colours, each \<open>(255, 255, b)\<close> with \<open>b\<close> the next number \<open>randint(180, 255)\<close> returns
  after \<open>seed(42)\<close>.
\<close>

theorem sparkle_colors_deterministic:
  "sparkle_colors R g1 = sparkle_colors R g2
   \<and> sparkle_colors R g1 = map (\<lambda>b. [255, 255, b]) (draws R (seed R 42) 12)
   \<and> length (sparkle_colors R g1) = 12"
proof -
  have "length (draws R g n) = n" for g n
    by (induction n arbitrary: g) (simp_all add: split_beta)
  moreover have "length sparkle_positions = 12"
    by (simp add: sparkle_positions_def)
  ultimately show ?thesis
    by (simp add: sparkle_colors_def sparkle_step_def sparkle_loop_colors)
qed

subsection \<open>The run of \<open>create_nebula_icon\<close>\<close>

text \<open>
  With 200 steps no arc raises, so the only exception of a run is one the font chain lets
  through; otherwise the image is the rendering of the drawing calls, the last of which
  are the spheres and the sparkles.
\<close>

lemma draw_orbital_Inr:
  "\<exists>segs. (draw_orbital M cx cy rx ry rot cs ce wd a0 a1 :: py_error + 'f draw_cmd list) = Inr segs"
  by (simp add: draw_orbital_def draw_thick_arc_def default_steps_def Let_def)

lemma draw_orbital_projr:
  "(draw_orbital M cx cy rx ry rot cs ce wd a0 a1 :: py_error + 'f draw_cmd list)
     = Inr (projr (draw_orbital M cx cy rx ry rot cs ce wd a0 a1))"
proof -
  obtain segs :: "'f draw_cmd list" where
    segs: "draw_orbital M cx cy rx ry rot cs ce wd a0 a1 = Inr segs"
    using draw_orbital_Inr by blast
  show ?thesis by (simp only: segs sum.sel)
qed

lemma orbital_halves_Inr:
  "\<exists>cmds. (orbital_halves M a0 a1 :: py_error + 'f draw_cmd list) = Inr cmds"
  unfolding orbital_halves_def Let_def orbitals_def
  by (simp, subst draw_orbital_projr, simp, subst draw_orbital_projr, simp,
      subst draw_orbital_projr, simp)

lemma create_nebula_icon_run:
  "\<exists>pre. create_nebula_icon M P R g0 =
     (case load_font P 240 of
        Inl e \<Rightarrow> Inl e
      | Inr font \<Rightarrow>
          Inr (render P (pre font @ spheres M @ fst (snd (sparkle_step R g0)))
                 (new_image SIZE SIZE (0, 0, 0, 255))))"
proof -
  obtain behind :: "'a draw_cmd list" where behind: "orbital_halves M 180 360 = Inr behind"
    using orbital_halves_Inr by blast
  obtain front :: "'a draw_cmd list" where front: "orbital_halves M 0 180 = Inr front"
    using orbital_halves_Inr by blast
  show ?thesis
    by (intro exI[of _ "\<lambda>font. background @ behind @ glyph P font @ front"])
      (simp add: create_nebula_icon_def behind front Let_def split_beta split: sum.splits)
qed

subsection \<open>The font fallback chain\<close>




subsection \<open>Electrons on their orbitals\<close>

text \<open>
  C8: the centre at which \<open>create_nebula_icon\<close> draws the sphere of an electron is the
  point of the rotated-ellipse parametrisation
  \<open>(cx + rx cos a cos r - ry sin a sin r, cy + rx cos a sin r + ry sin a cos r)\<close> at the
  electron's angle \<open>a\<close> and its orbital's rotation \<open>r\<close>, with \<open>rx = 340\<close>, \<open>ry = 130\<close> and
  centre \<open>(512, 512)\<close>, truncated to integers; the spheres are the drawing calls of
  \<open>create_nebula_icon\<close> that precede the sparkles, and the sample points of
  \<open>draw_thick_arc\<close> are points of the same parametrisation.
\<close>

theorem electron_on_orbit:
  "(spheres M :: 'f draw_cmd list) =
     (let (x0, y0) = orbit_point M 512 512 340 130 (radians 220) (radians (- 30));
          (x1, y1) = orbit_point M 512 512 340 130 (radians 40) (radians 90)
      in draw_sphere (py_int x0) (py_int y0) 22 [80, 130, 255] [180, 200, 255]
         @ draw_sphere (py_int x1) (py_int y1) 22 [255, 160, 30] [255, 220, 140])
   \<and> (\<exists>pre. create_nebula_icon M P R g0 =
         (case load_font P 240 of
            Inl e \<Rightarrow> Inl e
          | Inr font \<Rightarrow>
              Inr (render P (pre font @ spheres M @ fst (snd (sparkle_step R g0)))
                     (new_image SIZE SIZE (0, 0, 0, 255)))))
   \<and> electron_position M cx cy rx ry rot_deg angle_deg
       = orbit_point M cx cy rx ry (radians (i2f angle_deg)) (radians (i2f rot_deg))
   \<and> arc_point M cx cy rx ry a0 a1 (cos_d M r) (sin_d M r) t =
       (case orbit_point M cx cy rx ry (radians (fadd a0 (fmul (fsub a1 a0) t))) r of
          (px, py) \<Rightarrow> (px, py, t))"
  using spheres_eq[of M] create_nebula_icon_run[of M P R g0] electron_position_orbit
    arc_point_orbit
  by blast

subsection \<open>The centre of the second electron\<close>

text \<open>
  The second electron sits at 40 degrees on the orbital rotated by 90 degrees. With
  \<open>cos\<close> and \<open>sin\<close> of the two angles known to four decimals, the doubles of the loop body
  are enclosed between dyadic bounds, which rounding never crosses, and the centre
  truncates to \<open>(428, 772)\<close>.
\<close>

lemma fl_between:
  assumes "dyadic lo" "dyadic hi" "lo \<le> x" "x \<le> hi"
  shows "lo \<le> fl x \<and> fl x \<le> hi"
  using fl_ge[OF assms(1,3)] fl_le[OF assms(2,4)] by simp

lemma mult_between:
  fixes x y :: real
  assumes "0 \<le> a" "a \<le> x" "x \<le> b" "0 \<le> c" "c \<le> y" "y \<le> d"
  shows "a * c \<le> x * y \<and> x * y \<le> b * d"
proof -
  have "a * c \<le> x * y" using assms by (intro mult_mono) simp_all
  moreover have "x * y \<le> b * d" using assms by (intro mult_mono) simp_all
  ultimately show ?thesis by simp
qed

lemma mult_small:
  fixes x y :: real
  assumes "\<bar>x\<bar> \<le> b" "\<bar>y\<bar> \<le> e"
  shows "- (b * e) \<le> x * y \<and> x * y \<le> b * e"
proof -
  have "\<bar>x * y\<bar> \<le> b * e"
    unfolding abs_mult using assms by (intro mult_mono) simp_all
  then show ?thesis by (simp add: abs_le_iff)
qed

lemma dyadic_numerals:
  "dyadic (2083 / 8)" "dyadic (521 / 2)" "dyadic (167 / 2)" "dyadic (669 / 8)"
  "dyadic (- (1 / 32))" "dyadic (1 / 32)" "dyadic (16383 / 32)" "dyadic (16385 / 32)"
  "dyadic (667 / 8)" "dyadic (335 / 4)" "dyadic (13703 / 32)" "dyadic (13717 / 32)"
  "dyadic (1041 / 4)" "dyadic (2085 / 8)" "dyadic (3089 / 4)" "dyadic (6181 / 8)"
  "dyadic (- (1 / 64))" "dyadic (1 / 64)" "dyadic (49423 / 64)" "dyadic (49449 / 64)"
proof -
  show "dyadic (2083 / 8)" by (rule dyadicI[of _ 2083 3]) simp_all
  show "dyadic (521 / 2)" by (rule dyadicI[of _ 521 1]) simp_all
  show "dyadic (167 / 2)" by (rule dyadicI[of _ 167 1]) simp_all
  show "dyadic (669 / 8)" by (rule dyadicI[of _ 669 3]) simp_all
  show "dyadic (- (1 / 32))" by (rule dyadicI[of _ "- 1" 5]) simp_all
  show "dyadic (1 / 32)" by (rule dyadicI[of _ 1 5]) simp_all
  show "dyadic (16383 / 32)" by (rule dyadicI[of _ 16383 5]) simp_all
  show "dyadic (16385 / 32)" by (rule dyadicI[of _ 16385 5]) simp_all
  show "dyadic (667 / 8)" by (rule dyadicI[of _ 667 3]) simp_all
  show "dyadic (335 / 4)" by (rule dyadicI[of _ 335 2]) simp_all
  show "dyadic (13703 / 32)" by (rule dyadicI[of _ 13703 5]) simp_all
  show "dyadic (13717 / 32)" by (rule dyadicI[of _ 13717 5]) simp_all
  show "dyadic (1041 / 4)" by (rule dyadicI[of _ 1041 2]) simp_all
  show "dyadic (2085 / 8)" by (rule dyadicI[of _ 2085 3]) simp_all
  show "dyadic (3089 / 4)" by (rule dyadicI[of _ 3089 2]) simp_all
  show "dyadic (6181 / 8)" by (rule dyadicI[of _ 6181 3]) simp_all
  show "dyadic (- (1 / 64))" by (rule dyadicI[of _ "- 1" 6]) simp_all
  show "dyadic (1 / 64)" by (rule dyadicI[of _ 1 6]) simp_all
  show "dyadic (49423 / 64)" by (rule dyadicI[of _ 49423 6]) simp_all
  show "dyadic (49449 / 64)" by (rule dyadicI[of _ 49449 6]) simp_all
qed

lemma second_electron_centre:
  assumes c40: "\<bar>cos_d M (radians 40) - 766 / 1000\<bar> \<le> 1 / 10000"
    and s40: "\<bar>sin_d M (radians 40) - 6428 / 10000\<bar> \<le> 1 / 10000"
    and c90: "\<bar>cos_d M (radians 90)\<bar> \<le> 1 / 10000"
    and s90: "\<bar>sin_d M (radians 90) - 1\<bar> \<le> 1 / 10000"
  shows "orbit_point M 512 512 340 130 (radians 40) (radians 90) = (x, y)
           \<Longrightarrow> py_int x = 428 \<and> py_int y = 772"
proof -
  define c where "c = cos_d M (radians 40)"
  define s where "s = sin_d M (radians 40)"
  define cr where "cr = cos_d M (radians 90)"
  define sr where "sr = sin_d M (radians 90)"
  define ex where "ex = fmul 340 c"
  define ey where "ey = fmul 130 s"
  assume "orbit_point M 512 512 340 130 (radians 40) (radians 90) = (x, y)"
  then have x: "x = fsub (fadd 512 (fmul ex cr)) (fmul ey sr)"
    and y: "y = fadd (fadd 512 (fmul ex sr)) (fmul ey cr)"
    by (simp_all add: orbit_point_def ex_def ey_def c_def s_def cr_def sr_def)
  have c: "7659 / 10000 \<le> c \<and> c \<le> 7661 / 10000"
    using c40 unfolding c_def by linarith
  have s: "6427 / 10000 \<le> s \<and> s \<le> 6429 / 10000"
    using s40 unfolding s_def by linarith
  have cr: "\<bar>cr\<bar> \<le> 1 / 10000"
    using c90 by (simp add: cr_def)
  have sr: "9999 / 10000 \<le> sr \<and> sr \<le> 10001 / 10000"
    using s90 unfolding sr_def by linarith
  have ex: "2083 / 8 \<le> ex \<and> ex \<le> 521 / 2"
    unfolding ex_def fmul_def using c
    by (intro fl_between dyadic_numerals) simp_all
  have ey: "167 / 2 \<le> ey \<and> ey \<le> 669 / 8"
    unfolding ey_def fmul_def using s
    by (intro fl_between dyadic_numerals) simp_all
  have "\<bar>ex\<bar> \<le> 521 / 2" using ex by simp
  from mult_small[OF this cr]
  have e1: "- (1 / 32) \<le> fmul ex cr \<and> fmul ex cr \<le> 1 / 32"
    unfolding fmul_def by (intro fl_between dyadic_numerals) simp_all
  have a: "16383 / 32 \<le> fadd 512 (fmul ex cr) \<and> fadd 512 (fmul ex cr) \<le> 16385 / 32"
    unfolding fadd_def using e1 by (intro fl_between dyadic_numerals) simp_all
  from mult_between[of "167 / 2" ey "669 / 8" "9999 / 10000" sr "10001 / 10000"] ey sr
  have b: "667 / 8 \<le> fmul ey sr \<and> fmul ey sr \<le> 335 / 4"
    unfolding fmul_def by (intro fl_between dyadic_numerals) simp_all
  have px: "13703 / 32 \<le> x \<and> x \<le> 13717 / 32"
    unfolding x fsub_def using a b by (intro fl_between dyadic_numerals) simp_all
  from mult_between[of "2083 / 8" ex "521 / 2" "9999 / 10000" sr "10001 / 10000"] ex sr
  have f: "1041 / 4 \<le> fmul ex sr \<and> fmul ex sr \<le> 2085 / 8"
    unfolding fmul_def by (intro fl_between dyadic_numerals) simp_all
  have cc: "3089 / 4 \<le> fadd 512 (fmul ex sr) \<and> fadd 512 (fmul ex sr) \<le> 6181 / 8"
    unfolding fadd_def using f by (intro fl_between dyadic_numerals) simp_all
  have "\<bar>ey\<bar> \<le> 669 / 8" using ey by simp
  from mult_small[OF this cr]
  have d: "- (1 / 64) \<le> fmul ey cr \<and> fmul ey cr \<le> 1 / 64"
    unfolding fmul_def by (intro fl_between dyadic_numerals) simp_all
  have "y = fl (fadd 512 (fmul ex sr) + fmul ey cr)"
    unfolding y by (rule fadd_def)
  then have py: "49423 / 64 \<le> y \<and> y \<le> 49449 / 64"
    using cc d by (simp only:) (intro fl_between dyadic_numerals, simp_all)
  have "py_int x = 428"
    using px by (simp add: py_int_def floor_eq_iff)
  moreover have "py_int y = 772"
    using py by (simp add: py_int_def floor_eq_iff)
  ultimately show ?thesis by simp
qed

subsection \<open>Rendering\<close>

lemma paint_size: "width (paint P c img) = width img \<and> height (paint P c img) = height img"
  by (cases c) simp_all

lemma render_size:
  "width (render P cmds img) = width img \<and> height (render P cmds img) = height img"
  unfolding render_def by (induction cmds arbitrary: img) (simp_all add: paint_size)

lemma paint_untouched: "untouched P p c \<Longrightarrow> pixels (paint P c img) p = pixels img p"
  by (cases c) simp_all

lemma render_untouched:
  "\<forall>c\<in>set cmds. untouched P p c \<Longrightarrow> pixels (render P cmds img) p = pixels img p"
  unfolding render_def by (induction cmds arbitrary: img) (simp_all add: paint_untouched)

lemma render_last_ellipse:
  assumes "ellipse_px P box p" and "\<forall>c\<in>set post. untouched P p c"
  shows "pixels (render P (pre @ Ellipse box fill # post) img) p = ink fill"
proof -
  have "render P (pre @ Ellipse box fill # post) img
        = render P post (paint P (Ellipse box fill) (render P pre img))"
    by (simp add: render_def)
  then show ?thesis
    using assms by (simp add: render_untouched)
qed

lemma far_ellipse:
  assumes "\<forall>x0 y0 x1 y1 x y. ellipse_px P (x0, y0, x1, y1) (x, y) \<longrightarrow>
             \<lfloor>x0\<rfloor> \<le> x \<and> x \<le> \<lceil>x1\<rceil> \<and> \<lfloor>y0\<rfloor> \<le> y \<and> y \<le> \<lceil>y1\<rceil>"
    and "of_int x + 1 \<le> x0"
  shows "untouched P (x, y) (Ellipse (x0, y0, x1, y1) fill)"
proof -
  have "x + 1 \<le> \<lfloor>x0\<rfloor>"
    using assms(2) by (simp add: le_floor_iff)
  then have "\<not> \<lfloor>x0\<rfloor> \<le> x" by simp
  then show ?thesis using assms(1) by auto
qed

lemma far_line:
  assumes "\<forall>x1 y1 x2 y2 x y. line_px P (x1, y1) (x2, y2) 1 (x, y) \<longrightarrow>
             min x1 x2 - 1 \<le> of_int x \<and> of_int x \<le> max x1 x2 + 1
           \<and> min y1 y2 - 1 \<le> of_int y \<and> of_int y \<le> max y1 y2 + 1"
    and "lx \<le> x1 \<and> x1 \<le> hx" "lx \<le> x2 \<and> x2 \<le> hx"
    and "ly \<le> y1 \<and> y1 \<le> hy" "ly \<le> y2 \<and> y2 \<le> hy"
    and "of_int x < lx - 1 \<or> hx + 1 < of_int x \<or> of_int y < ly - 1 \<or> hy + 1 < of_int y"
  shows "untouched P (x, y) (Line (x1, y1) (x2, y2) fill 1)"
  using assms by fastforce

text \<open>
  The diagonal strokes of a sparkle end at \<open>x - ds\<close> and \<open>x + ds\<close> with
  \<open>ds = s * 0.6\<close> in doubles; both stay within \<open>s\<close> of \<open>x\<close>.
\<close>

lemma sparkle_offsets:
  assumes "0 \<le> ss" "ss < 2 ^ 20" "\<bar>v\<bar> < 2 ^ 20"
  shows "of_int (v - ss) \<le> fsub (i2f v) (fmul (i2f ss) (fl 0.6))
       \<and> fsub (i2f v) (fmul (i2f ss) (fl 0.6)) \<le> of_int (v + ss)
       \<and> of_int (v - ss) \<le> fadd (i2f v) (fmul (i2f ss) (fl 0.6))
       \<and> fadd (i2f v) (fmul (i2f ss) (fl 0.6)) \<le> of_int (v + ss)"
proof -
  define k where "k = fl 0.6"
  define ds where "ds = fmul (i2f ss) k"
  have v: "i2f v = of_int v" using assms(3) by (intro i2f_small) simp
  have s: "i2f ss = of_int ss" using assms(1,2) by (intro i2f_small) simp
  have k: "0 \<le> k \<and> k \<le> 1"
    using fl_int_bounds[of 0 1 "0.6"] by (simp add: k_def)
  have "0 \<le> real_of_int ss * k" using assms(1) k by simp
  moreover have "real_of_int ss * k \<le> of_int ss"
    using assms(1) k mult_left_le[of k "real_of_int ss"] by simp
  ultimately have ds: "0 \<le> ds \<and> ds \<le> of_int ss"
    unfolding ds_def fmul_def s
    using fl_int_bounds[of 0 ss "real_of_int ss * k"] assms(1,2) by simp
  have lo: "\<bar>v - ss\<bar> < 2 ^ 53" and hi: "\<bar>v + ss\<bar> < 2 ^ 53"
    using assms by simp_all
  have "of_int (v - ss) \<le> fl (of_int v - ds) \<and> fl (of_int v - ds) \<le> of_int (v + ss)"
    using ds assms(1) by (intro fl_int_bounds[OF lo hi]) simp_all
  moreover have "of_int (v - ss) \<le> fl (of_int v + ds) \<and> fl (of_int v + ds) \<le> of_int (v + ss)"
    using ds assms(1) by (intro fl_int_bounds[OF lo hi]) simp_all
  ultimately show ?thesis
    by (simp only: fsub_def fadd_def v ds_def[symmetric] k_def[symmetric])
qed

lemma far_sparkle:
  assumes line: "\<forall>x1 y1 x2 y2 x y. line_px P (x1, y1) (x2, y2) 1 (x, y) \<longrightarrow>
             min x1 x2 - 1 \<le> of_int x \<and> of_int x \<le> max x1 x2 + 1
           \<and> min y1 y2 - 1 \<le> of_int y \<and> of_int y \<le> max y1 y2 + 1"
    and ss: "0 \<le> ss" "ss < 2 ^ 20" and sx: "\<bar>sx\<bar> < 2 ^ 20" and sy: "\<bar>sy\<bar> < 2 ^ 20"
    and far: "ss + 1 < \<bar>x - sx\<bar> \<or> ss + 1 < \<bar>y - sy\<bar>"
    and c: "c \<in> set (draw_sparkle sx sy ss fill)"
  shows "untouched P (x, y) c"
proof -
  define ds where "ds = fmul (i2f ss) (fl 0.6)"
  define lx hx ly hy :: real where
    "lx = of_int (sx - ss)" and "hx = of_int (sx + ss)"
    and "ly = of_int (sy - ss)" and "hy = of_int (sy + ss)"
  have out: "of_int x < lx - 1 \<or> hx + 1 < of_int x \<or> of_int y < ly - 1 \<or> hy + 1 < of_int y"
  proof -
    from far have "x < sx - ss - 1 \<or> sx + ss + 1 < x \<or> y < sy - ss - 1 \<or> sy + ss + 1 < y"
      by linarith
    then have "real_of_int x < of_int (sx - ss - 1) \<or> of_int (sx + ss + 1) < real_of_int x
             \<or> real_of_int y < of_int (sy - ss - 1) \<or> of_int (sy + ss + 1) < real_of_int y"
      by (simp only: of_int_less_iff)
    then show ?thesis by (simp add: lx_def hx_def ly_def hy_def)
  qed
  have xm: "lx \<le> fsub (i2f sx) ds \<and> fsub (i2f sx) ds \<le> hx"
    and xp: "lx \<le> fadd (i2f sx) ds \<and> fadd (i2f sx) ds \<le> hx"
    using sparkle_offsets[OF ss sx] by (simp_all only: lx_def hx_def ds_def)
  have ym: "ly \<le> fsub (i2f sy) ds \<and> fsub (i2f sy) ds \<le> hy"
    and yp: "ly \<le> fadd (i2f sy) ds \<and> fadd (i2f sy) ds \<le> hy"
    using sparkle_offsets[OF ss sy] by (simp_all only: ly_def hy_def ds_def)
  have x0: "lx \<le> of_int sx \<and> real_of_int sx \<le> hx" and y0: "ly \<le> of_int sy \<and> real_of_int sy \<le> hy"
    using ss(1) by (simp_all add: lx_def hx_def ly_def hy_def)
  have xl: "lx \<le> of_int (sx - ss) \<and> real_of_int (sx - ss) \<le> hx"
    and xh: "lx \<le> of_int (sx + ss) \<and> real_of_int (sx + ss) \<le> hx"
    and yl: "ly \<le> of_int (sy - ss) \<and> real_of_int (sy - ss) \<le> hy"
    and yh: "ly \<le> of_int (sy + ss) \<and> real_of_int (sy + ss) \<le> hy"
    using ss(1) by (simp_all add: lx_def hx_def ly_def hy_def)
  from c consider
      "c = Line (of_int sx, of_int (sy - ss)) (of_int sx, of_int (sy + ss)) fill 1"
    | "c = Line (of_int (sx - ss), of_int sy) (of_int (sx + ss), of_int sy) fill 1"
    | "c = Line (fsub (i2f sx) ds, fsub (i2f sy) ds) (fadd (i2f sx) ds, fadd (i2f sy) ds) fill 1"
    | "c = Line (fadd (i2f sx) ds, fsub (i2f sy) ds) (fsub (i2f sx) ds, fadd (i2f sy) ds) fill 1"
    unfolding draw_sparkle_def Let_def ds_def by auto
  then show ?thesis
  proof cases
    case 1
    show ?thesis unfolding 1 by (rule far_line[OF line x0 x0 yl yh out])
  next
    case 2
    show ?thesis unfolding 2 by (rule far_line[OF line xl xh y0 y0 out])
  next
    case 3
    show ?thesis unfolding 3 by (rule far_line[OF line xm xp ym yp out])
  next
    case 4
    show ?thesis unfolding 4 by (rule far_line[OF line xp xm ym yp out])
  qed
qed

lemma sparkle_loop_cmds:
  "c \<in> set (fst (snd (sparkle_loop R g ps))) \<Longrightarrow>
   \<exists>sx sy ss fill. (sx, sy, ss) \<in> set ps \<and> c \<in> set (draw_sparkle sx sy ss fill)"
proof (induction ps arbitrary: g)
  case Nil
  then show ?case by simp
next
  case (Cons q ps)
  obtain sx sy ss where q: "q = (sx, sy, ss)" by (cases q)
  from Cons.prems consider
      "c \<in> set (draw_sparkle sx sy ss [255, 255, fst (randint R g 180 255)])"
    | "c \<in> set (fst (snd (sparkle_loop R (snd (randint R g 180 255)) ps)))"
    by (auto simp: q split_beta Let_def)
  then show ?case
  proof cases
    case 1
    then show ?thesis unfolding q by (meson list.set_intros(1))
  next
    case 2
    from Cons.IH[OF 2] show ?thesis by (meson list.set_intros(2))
  qed
qed

subsection \<open>The spheres\<close>

text \<open>
  The ellipses of the second sphere: the first is the outermost glow ellipse, with alpha
  \<open>int(60 * (1 - 12 / 12)) = 0\<close>; the left side of the box of every later one is at 395
  or further right. The highlight boxes have the corner \<open>cx - 22 * 0.3 - r2\<close> with
  \<open>r2\<close> at most \<open>int(22 * 0.35) = 7\<close>.
\<close>

lemma draw_sphere_outer:
  "\<exists>rest. (draw_sphere 428 772 22 base hi :: 'f draw_cmd list)
       = Ellipse (int_box 428 772 34) (base @ [0]) # rest
     \<and> (\<forall>c\<in>set rest. \<exists>x0 y0 x1 y1 fill. c = Ellipse (x0, y0, x1, y1) fill \<and> 395 \<le> x0)"
proof -
  define hx where "hx = fsub (i2f 428) (fmul (i2f 22) (fl 0.3))"
  define hy where "hy = fsub (i2f 772) (fmul (i2f 22) (fl 0.3))"
  define hr where "hr = fmul (i2f 22) (fl 0.35)"
  have up: "rev [23..(34::int)] = 34 # rev [23..33]"
    using upto_rec2[of 23 34] by simp
  have hr: "py_int hr = 7"
    by (simp add: hr_def py_int_def fl_eval)
  have hx: "421 \<le> hx"
    by (simp add: hx_def fl_eval)
  let ?glow = "\<lambda>r::int. Ellipse (int_box 428 772 r)
                  (base @ [py_int (fmul 60 (fsub 1 (fdiv (of_int (r - 22)) 12)))]) :: 'f draw_cmd"
  let ?body = "\<lambda>r::int. Ellipse (int_box 428 772 r)
                  (lerp_color base hi (fmul (fsub 1 (fdiv (of_int r) (of_int 22))) (fl 0.6)))
                  :: 'f draw_cmd"
  let ?high = "\<lambda>r2::int. Ellipse (fsub hx (i2f r2), fsub hy (i2f r2), fadd hx (i2f r2), fadd hy (i2f r2))
                  [255, 255, 255, py_int (fmul 200 (fsub 1 (fdiv (i2f r2) hr)))] :: 'f draw_cmd"
  let ?rest = "map ?glow (rev [23..33]) @ map ?body (rev [1..22]) @ map ?high (rev [1..7])"
  have eq: "(draw_sphere 428 772 22 base hi :: 'f draw_cmd list) = ?glow 34 # ?rest"
    unfolding draw_sphere_def Let_def hx_def[symmetric] hy_def[symmetric] hr_def[symmetric]
    by (simp only: hr) (simp add: up del: upto.simps)
  have first: "?glow 34 = Ellipse (int_box 428 772 34) (base @ [0])"
    by (simp add: py_int_def fl_eval)
  have "\<exists>x0 y0 x1 y1 fill. c = Ellipse (x0, y0, x1, y1) fill \<and> 395 \<le> x0"
    if "c \<in> set ?rest" for c
  proof -
    from that have "c \<in> ?glow ` {23..33} \<or> c \<in> ?body ` {1..22} \<or> c \<in> ?high ` {1..7}"
      by (simp only: set_append set_map set_rev set_upto Un_iff)
    then consider r where "c = ?glow r" "r \<le> 33"
      | r where "c = ?body r" "r \<le> 22"
      | r where "c = ?high r" "1 \<le> r" "r \<le> 7"
      by (auto simp only: image_iff atLeastAtMost_iff)
    then show ?thesis
    proof cases
      case 1
      then have "(395::real) \<le> of_int (428 - r)" by simp
      with 1(1) show ?thesis unfolding int_box_def by blast
    next
      case 2
      then have "(395::real) \<le> of_int (428 - r)" by simp
      with 2(1) show ?thesis unfolding int_box_def by blast
    next
      case 3
      have r: "i2f r = of_int r" using 3(2,3) by (intro i2f_small) simp
      have "real_of_int 414 \<le> hx - of_int r" using hx 3(3) by simp
      then have "real_of_int 414 \<le> fl (hx - of_int r)"
        by (intro fl_ge dyadic_int) simp_all
      then have "395 \<le> fsub hx (i2f r)" by (simp add: fsub_def r)
      with 3(1) show ?thesis by blast
    qed
  qed
  then show ?thesis using eq first by (intro exI[of _ ?rest]) simp
qed

text \<open>
  The glow alphas of a sphere of radius 22, outermost first, and the outermost highlight
  box of the second sphere in whole pixels: in double arithmetic \<open>60 * (1 - 10 / 12)\<close> is
  just below 10, and the box \<open>(414.4, 758.4, 428.4, 772.4)\<close> begins in pixel column 414.
\<close>

lemma glow_alphas:
  "map (\<lambda>r. py_int (fmul 60 (fsub 1 (fdiv (of_int (r - 22)) 12)))) (rev [23..34])
     = [0, 5, 9, 15, 20, 24, 30, 34, 40, 45, 50, 55]"
  by (simp add: py_int_def fl_eval upto_rec1)

lemma highlight_box:
  "\<lfloor>fsub (fsub (i2f 428) (fmul (i2f 22) (fl 0.3))) (i2f 7)\<rfloor> = 414
   \<and> \<lceil>fadd (fsub (i2f 428) (fmul (i2f 22) (fl 0.3))) (i2f 7)\<rceil> = 429"
  by (simp add: fl_eval)

subsection \<open>The composed image\<close>

lemma sparkles_far:
  assumes line: "\<forall>x1 y1 x2 y2 x y. line_px P (x1, y1) (x2, y2) 1 (x, y) \<longrightarrow>
             min x1 x2 - 1 \<le> of_int x \<and> of_int x \<le> max x1 x2 + 1
           \<and> min y1 y2 - 1 \<le> of_int y \<and> of_int y \<le> max y1 y2 + 1"
    and c: "c \<in> set (fst (snd (sparkle_step R g0)))"
  shows "untouched P (394, 772) c"
proof -
  from c obtain sx sy ss fill where
    pos: "(sx, sy, ss) \<in> set sparkle_positions" and draw: "c \<in> set (draw_sparkle sx sy ss fill)"
    unfolding sparkle_step_def Let_def by (blast dest: sparkle_loop_cmds)
  from pos have "0 \<le> ss \<and> ss < 2 ^ 20 \<and> \<bar>sx\<bar> < 2 ^ 20 \<and> \<bar>sy\<bar> < 2 ^ 20
      \<and> (ss + 1 < \<bar>394 - sx\<bar> \<or> ss + 1 < \<bar>772 - sy\<bar>)"
    by (auto simp: sparkle_positions_def)
  then show ?thesis
    using far_sparkle[OF line _ _ _ _ _ draw, of 394 772] by blast
qed

lemma ink_background:
  "alpha_of (ink [v, v, b, 255]) = 255"
  by (simp add: alpha_of_def)

lemma paint_ellipse_opaque:
  assumes "alpha_of (ink fill) = 255" and "\<And>q. alpha_of (pixels img q) = 255"
  shows "alpha_of (pixels (paint P (Ellipse box fill) img) p) = 255"
  using assms by simp

lemma render_opaque:
  assumes "\<forall>c\<in>set cmds. \<exists>box fill. c = Ellipse box fill \<and> alpha_of (ink fill) = 255"
    and "\<And>q. alpha_of (pixels img q) = 255"
  shows "alpha_of (pixels (render P cmds img) p) = 255"
  using assms unfolding render_def
proof (induction cmds arbitrary: img)
  case Nil
  then show ?case by simp
next
  case (Cons c cmds)
  from Cons.prems(1) obtain box fill where
    c: "c = Ellipse box fill" and a: "alpha_of (ink fill) = 255"
    by auto
  have step: "alpha_of (pixels (paint P c img) q) = 255" for q
    unfolding c using a Cons.prems(2) by (rule paint_ellipse_opaque)
  have tail: "\<forall>c\<in>set cmds. \<exists>box fill. c = Ellipse box fill \<and> alpha_of (ink fill) = 255"
    using Cons.prems(1) by simp
  show ?case
    using Cons.IH[OF tail step] by simp
qed

text \<open>
  The reason the claim gives holds for the background: the new image is opaque and every
  ellipse of the radial gradient has alpha 255, so after the background loop every pixel
  is opaque.
\<close>

lemma background_opaque:
  "alpha_of (pixels (render P background (new_image SIZE SIZE (0, 0, 0, 255))) p) = 255"
proof (rule render_opaque)
  show "\<forall>c\<in>set (background :: 'a draw_cmd list).
          \<exists>box fill. c = Ellipse box fill \<and> alpha_of (ink fill) = 255"
    unfolding background_def Let_def
    by (auto simp only: set_map set_rev image_iff intro!: ink_background)
  show "alpha_of (pixels (new_image SIZE SIZE (0, 0, 0, 255)) q) = 255" for q
    by (simp add: new_image_def alpha_of_def)
qed

text \<open>
  C1: the image \<open>create_nebula_icon\<close> returns is 1024 by 1024 pixels, but it is not
  opaque everywhere. \<open>draw_sphere\<close> draws its glow with \<open>ImageDraw\<close> on the RGBA image
  itself, so the ink of each glow ellipse, alpha included, replaces the pixels it covers.
  The outermost glow ellipse of the second electron (centre \<open>(428, 772)\<close>, radius
  \<open>22 + 12\<close>) has alpha \<open>int(60 * (1 - 12 / 12)) = 0\<close>; its leftmost pixel \<open>(394, 772)\<close>
  lies left of the bounding box of every ellipse drawn after it and away from every
  sparkle, so it keeps the ink \<open>(255, 160, 30, 0)\<close>. What is used of Pillow's rasteriser:
  an ellipse stays inside its bounding box with the corners rounded outwards to whole
  pixels, the glow ellipse of radius 34 covers the middle of the left side of its box,
  and a line of width 1 stays within one pixel of the rectangle spanned by its end
  points. What is used of the C library: \<open>cos\<close> and \<open>sin\<close> of the doubles
  \<open>radians(40)\<close> and \<open>radians(90)\<close> are right to four decimals.
\<close>

theorem create_nebula_icon_glow_pixel:
  assumes inside: "\<forall>x0 y0 x1 y1 x y. ellipse_px P (x0, y0, x1, y1) (x, y) \<longrightarrow>
             \<lfloor>x0\<rfloor> \<le> x \<and> x \<le> \<lceil>x1\<rceil> \<and> \<lfloor>y0\<rfloor> \<le> y \<and> y \<le> \<lceil>y1\<rceil>"
    and touch: "ellipse_px P (int_box 428 772 34) (394, 772)"
    and line: "\<forall>x1 y1 x2 y2 x y. line_px P (x1, y1) (x2, y2) 1 (x, y) \<longrightarrow>
             min x1 x2 - 1 \<le> of_int x \<and> of_int x \<le> max x1 x2 + 1
           \<and> min y1 y2 - 1 \<le> of_int y \<and> of_int y \<le> max y1 y2 + 1"
    and c40: "\<bar>cos_d M (radians 40) - 766 / 1000\<bar> \<le> 1 / 10000"
    and s40: "\<bar>sin_d M (radians 40) - 6428 / 10000\<bar> \<le> 1 / 10000"
    and c90: "\<bar>cos_d M (radians 90)\<bar> \<le> 1 / 10000"
    and s90: "\<bar>sin_d M (radians 90) - 1\<bar> \<le> 1 / 10000"
    and run: "create_nebula_icon M P R g0 = Inr img"
  shows "width img = 1024 \<and> height img = 1024
       \<and> pixels img (394, 772) = (255, 160, 30, 0)
       \<and> alpha_of (pixels img (394, 772)) \<noteq> 255"
proof -
  let ?img0 = "new_image SIZE SIZE (0, 0, 0, 255)"
  let ?sparkles = "fst (snd (sparkle_step R g0)) :: 'a draw_cmd list"
  obtain pre where pre: "create_nebula_icon M P R g0 =
       (case load_font P 240 of
          Inl e \<Rightarrow> Inl e
        | Inr font \<Rightarrow> Inr (render P (pre font @ spheres M @ ?sparkles) ?img0))"
    using create_nebula_icon_run[of M P R g0] by blast
  obtain font where img: "img = render P (pre font @ spheres M @ ?sparkles) ?img0"
    using pre run by (cases "load_font P 240") simp_all
  obtain rest :: "'a draw_cmd list" where
    sphere: "draw_sphere 428 772 22 [255, 160, 30] [255, 220, 140]
               = Ellipse (int_box 428 772 34) ([255, 160, 30] @ [0]) # rest"
    and rest: "\<forall>c\<in>set rest. \<exists>x0 y0 x1 y1 fill. c = Ellipse (x0, y0, x1, y1) fill \<and> 395 \<le> x0"
    using draw_sphere_outer by blast
  obtain x0 y0 where first: "orbit_point M 512 512 340 130 (radians 220) (radians (- 30)) = (x0, y0)"
    by (cases "orbit_point M 512 512 340 130 (radians 220) (radians (- 30))")
  obtain x1 y1 where second: "orbit_point M 512 512 340 130 (radians 40) (radians 90) = (x1, y1)"
    by (cases "orbit_point M 512 512 340 130 (radians 40) (radians 90)")
  have centre: "py_int x1 = 428 \<and> py_int y1 = 772"
    using second by (rule second_electron_centre[OF c40 s40 c90 s90])
  let ?first = "draw_sphere (py_int x0) (py_int y0) 22 [80, 130, 255] [180, 200, 255]
                  :: 'a draw_cmd list"
  have "(spheres M :: 'a draw_cmd list)
          = ?first @ draw_sphere 428 772 22 [255, 160, 30] [255, 220, 140]"
    unfolding spheres_eq by (simp add: first second centre)
  then have cmds: "pre font @ spheres M @ ?sparkles
        = (pre font @ ?first) @ Ellipse (int_box 428 772 34) [255, 160, 30, 0] # (rest @ ?sparkles)"
    by (simp add: sphere)
  have later: "\<forall>c\<in>set (rest @ ?sparkles). untouched P (394, 772) c"
  proof
    fix c assume "c \<in> set (rest @ ?sparkles)"
    then consider "c \<in> set rest" | "c \<in> set ?sparkles" by auto
    then show "untouched P (394, 772) c"
    proof cases
      case 1
      with rest obtain x0 y0 x1 y1 fill where
        c: "c = Ellipse (x0, y0, x1, y1) fill" and far: "395 \<le> x0"
        by blast
      show ?thesis unfolding c using far by (intro far_ellipse[OF inside]) simp
    next
      case 2
      then show ?thesis by (rule sparkles_far[OF line])
    qed
  qed
  have px: "pixels img (394, 772) = ink [255, 160, 30, 0]"
    unfolding img cmds by (rule render_last_ellipse[OF touch later])
  have size: "width img = 1024 \<and> height img = 1024"
    unfolding img by (simp add: render_size new_image_def SIZE_def)
  show ?thesis using px size by (simp add: alpha_of_def)
qed

lemma ideal_ellipse_bounds:
  assumes "ideal_ellipse (x0, y0, x1, y1) (x, y)"
  shows "x0 \<le> of_int x \<and> of_int x \<le> x1 \<and> y0 \<le> of_int y \<and> of_int y \<le> y1"
proof -
  define a where "a = 2 * real_of_int x - x0 - x1"
  define b where "b = 2 * real_of_int y - y0 - y1"
  define w where "w = x1 - x0"
  define h where "h = y1 - y0"
  have w: "0 < w" and h: "0 < h" and le: "a\<^sup>2 * h\<^sup>2 + b\<^sup>2 * w\<^sup>2 \<le> w\<^sup>2 * h\<^sup>2"
    using assms by (simp_all add: ideal_ellipse_def a_def b_def w_def h_def)
  have "a\<^sup>2 * h\<^sup>2 \<le> w\<^sup>2 * h\<^sup>2"
  proof -
    have "0 \<le> b\<^sup>2 * w\<^sup>2" by simp
    with le show ?thesis by linarith
  qed
  then have "a\<^sup>2 \<le> w\<^sup>2" using h by (simp add: mult_le_cancel_right)
  then have a: "\<bar>a\<bar> \<le> w" using w by (simp add: abs_le_square_iff[symmetric])
  have "b\<^sup>2 * w\<^sup>2 \<le> h\<^sup>2 * w\<^sup>2"
  proof -
    have "0 \<le> a\<^sup>2 * h\<^sup>2" by simp
    with le have "b\<^sup>2 * w\<^sup>2 \<le> w\<^sup>2 * h\<^sup>2" by linarith
    then show ?thesis by (simp add: mult.commute)
  qed
  then have "b\<^sup>2 \<le> h\<^sup>2" using w by (simp add: mult_le_cancel_right)
  then have b: "\<bar>b\<bar> \<le> h" using h by (simp add: abs_le_square_iff[symmetric])
  show ?thesis using a b by (simp add: a_def b_def w_def h_def abs_le_iff)
qed

lemma ideal_ellipse_inside:
  assumes "ideal_ellipse (x0, y0, x1, y1) (x, y)"
  shows "\<lfloor>x0\<rfloor> \<le> x \<and> x \<le> \<lceil>x1\<rceil> \<and> \<lfloor>y0\<rfloor> \<le> y \<and> y \<le> \<lceil>y1\<rceil>"
  using ideal_ellipse_bounds[OF assms] by (simp add: floor_le_iff le_ceiling_iff)

lemma ideal_ellipse_touch:
  "ideal_ellipse (int_box 428 772 34) (394, 772)"
  by (simp add: ideal_ellipse_def int_box_def)

lemma stroke_box_near:
  assumes "stroke_box (x1, y1) (x2, y2) 1 (x, y)"
  shows "min x1 x2 - 1 \<le> of_int x \<and> of_int x \<le> max x1 x2 + 1
           \<and> min y1 y2 - 1 \<le> of_int y \<and> of_int y \<le> max y1 y2 + 1"
  using assms by (simp add: stroke_box_def)

lemma coarse_libm_angles: "radians 40 < 1 \<and> 1 \<le> radians 90"
  by (simp add: fl_eval radians_def double_pi_def)

text \<open>
  C1 on the stand-in machine, whose rasteriser and C library satisfy the hypotheses.
\<close>

theorem create_nebula_icon_glow_pixel_witness:
  "\<exists>img. create_nebula_icon coarse_libm plain_pillow lcg 0 = Inr img
     \<and> width img = 1024 \<and> height img = 1024 \<and> alpha_of (pixels img (394, 772)) = 0"
proof -
  have font: "load_font plain_pillow 240 = Inr ''cour.ttf''"
    by (simp add: load_font_def plain_pillow_def caught_def)
  obtain img where run: "create_nebula_icon coarse_libm plain_pillow lcg (0::nat) = Inr img"
    using create_nebula_icon_run[of coarse_libm plain_pillow lcg 0] by (auto simp: font)
  have inside: "\<forall>x0 y0 x1 y1 x y. ellipse_px plain_pillow (x0, y0, x1, y1) (x, y) \<longrightarrow>
             \<lfloor>x0\<rfloor> \<le> x \<and> x \<le> \<lceil>x1\<rceil> \<and> \<lfloor>y0\<rfloor> \<le> y \<and> y \<le> \<lceil>y1\<rceil>"
    using ideal_ellipse_inside by (simp add: plain_pillow_def)
  have touch: "ellipse_px plain_pillow (int_box 428 772 34) (394, 772)"
    using ideal_ellipse_touch by (simp add: plain_pillow_def)
  have line: "\<forall>x1 y1 x2 y2 x y. line_px plain_pillow (x1, y1) (x2, y2) 1 (x, y) \<longrightarrow>
             min x1 x2 - 1 \<le> of_int x \<and> of_int x \<le> max x1 x2 + 1
           \<and> min y1 y2 - 1 \<le> of_int y \<and> of_int y \<le> max y1 y2 + 1"
    using stroke_box_near by (simp add: plain_pillow_def)
  have c40: "\<bar>cos_d coarse_libm (radians 40) - 766 / 1000\<bar> \<le> 1 / 10000"
    and s40: "\<bar>sin_d coarse_libm (radians 40) - 6428 / 10000\<bar> \<le> 1 / 10000"
    and c90: "\<bar>cos_d coarse_libm (radians 90)\<bar> \<le> 1 / 10000"
    and s90: "\<bar>sin_d coarse_libm (radians 90) - 1\<bar> \<le> 1 / 10000"
    using coarse_libm_angles by (simp_all add: coarse_libm_def)
  from create_nebula_icon_glow_pixel[OF inside touch line c40 s40 c90 s90 run]
  have "width img = 1024 \<and> height img = 1024 \<and> alpha_of (pixels img (394, 772)) = 0"
    by (simp add: alpha_of_def)
  with run show ?thesis by blast
qed

end
